theory Spec2Isabelle
  imports Main
begin

text \<open>
  A model of the Raw HTML tool (\<^verbatim>\<open>src/index.js\<close>): the constructor, the render
  operation and the script rehydrator \<^verbatim>\<open>_executeScripts\<close>. The browser is part of the
  model only as far as the code calls it: element creation, attributes, the child list
  of an element, timers, and the load and error events of a script element.
\<close>

section \<open>JavaScript values\<close>

text \<open>
  The host hands the constructor a plain object \<open>data\<close> whose field \<open>html\<close> may hold
  any JavaScript value, or be absent (reading it then gives \<open>undefined\<close>). Numbers are
  the integer-valued ones and \<open>NaN\<close>; \<open>Object\<close> stands for any plain object.
\<close>

datatype js_value =
    Undefined
  | Null
  | Boolean bool
  | Number int
  | NaN
  | Str string
  | Object

text \<open>ToBoolean: the falsy values are undefined, null, false, 0, NaN and the empty string.\<close>

fun truthy :: "js_value \<Rightarrow> bool" where
  "truthy Undefined = False"
| "truthy Null = False"
| "truthy (Boolean b) = b"
| "truthy (Number n) = (n \<noteq> 0)"
| "truthy NaN = False"
| "truthy (Str s) = (s \<noteq> [])"
| "truthy Object = True"

text \<open>The operator \<open>a || b\<close>: the left operand when it is truthy, the right one otherwise.\<close>

definition js_or :: "js_value \<Rightarrow> js_value \<Rightarrow> js_value" where
  "js_or a b = (if truthy a then a else b)"

text \<open>The decimal digits of a natural number, for ToString of a number.\<close>

function decimal :: "nat \<Rightarrow> string" where
  "decimal n =
     (if n < 10 then [''0123456789'' ! n]
      else decimal (n div 10) @ [''0123456789'' ! (n mod 10)])"
  by pat_completeness auto
termination
  by (relation "measure (\<lambda>n. n)") auto

declare decimal.simps [simp del]

fun toString :: "js_value \<Rightarrow> string" where
  "toString Undefined = ''undefined''"
| "toString Null = ''null''"
| "toString (Boolean b) = (if b then ''true'' else ''false'')"
| "toString (Number n) = (if n < 0 then CHR ''-'' # decimal (nat (- n)) else decimal (nat n))"
| "toString NaN = ''NaN''"
| "toString (Str s) = s"
| "toString Object = ''[object Object]''"

text \<open>
  What a DOM property of type string receives from a JavaScript value. A nullable
  string property (\<open>textContent\<close>) reads null and undefined as the empty string;
  \<open>innerHTML\<close> reads only null so; every other value goes through ToString.
\<close>

fun nullableString :: "js_value \<Rightarrow> string" where
  "nullableString Undefined = []"
| "nullableString Null = []"
| "nullableString v = toString v"

fun legacyNullString :: "js_value \<Rightarrow> string" where
  "legacyNullString Null = []"
| "legacyNullString v = toString v"

section \<open>The constructor\<close>

record raw_data =
  html :: js_value

record tool_config =
  config_placeholder :: js_value

record api_styles =
  block :: string
  input :: string

record css_names =
  baseClass :: string
  css_input :: string
  wrapper :: string
  css_textarea :: string

record constructor_args =
  arg_data :: raw_data
  arg_config :: tool_config
  arg_api :: api_styles
  arg_readOnly :: bool

type_synonym ref = nat

text \<open>
  The fields of a RawTool instance. \<open>textarea\<close> is a reference to an element or
  \<open>null\<close>; \<open>resizeDebounce\<close> is a timer handle or \<open>null\<close>.
\<close>

record raw_tool =
  api :: api_styles
  readOnly :: bool
  placeholder :: js_value
  CSS :: css_names
  data :: raw_data
  textarea :: "ref option"
  resizeDebounce :: "nat option"

definition DEFAULT_PLACEHOLDER :: string where
  "DEFAULT_PLACEHOLDER = ''Enter HTML code''"

text \<open>
  \<^verbatim>\<open>constructor({ data, config, api, readOnly })\<close>, lines 77 to 96.
\<close>

definition constructor :: "constructor_args \<Rightarrow> raw_tool" where
  "constructor a =
     \<lparr> api = arg_api a,
       readOnly = arg_readOnly a,
       placeholder = js_or (config_placeholder (arg_config a)) (Str DEFAULT_PLACEHOLDER),
       CSS = \<lparr> baseClass = block (arg_api a),
               css_input = input (arg_api a),
               wrapper = ''ce-rawtool'',
               css_textarea = ''ce-rawtool__textarea'' \<rparr>,
       data = \<lparr> html = js_or (html (arg_data a)) (Str []) \<rparr>,
       textarea = None,
       resizeDebounce = None \<rparr>"

section \<open>The document tree\<close>

text \<open>
  A node is a text node, a script element or any other element. Elements are objects
  with identity: each carries a reference, and a variable of the code that holds an
  element holds its reference. A script element has attributes and text only: the
  markup parser reads the content of a script element as raw text, and
  \<open>textContent = s\<close> leaves one text child. Attributes are kept in document order.
\<close>

type_synonym attr = "string \<times> string"

datatype script = Script (ident: ref) (attributes: "attr list") (textContent: string)

datatype node =
    Text string
  | ScriptElement script
  | Element ref string "attr list" "node list"

fun node_ref :: "node \<Rightarrow> ref option" where
  "node_ref (Text t) = None"
| "node_ref (ScriptElement sc) = Some (ident sc)"
| "node_ref (Element r tg as cs) = Some r"

fun childNodes :: "node \<Rightarrow> node list" where
  "childNodes (Element r tg as cs) = cs"
| "childNodes (Text t) = []"
| "childNodes (ScriptElement sc) = []"

text \<open>The script elements of a subtree, the root included, in document order.\<close>

fun scriptsOf :: "node \<Rightarrow> script list" where
  "scriptsOf (Text t) = []"
| "scriptsOf (ScriptElement sc) = [sc]"
| "scriptsOf (Element r tg as cs) = concat (map scriptsOf cs)"

text \<open>
  \<^verbatim>\<open>container.querySelectorAll('script')\<close>: the script elements among the descendants
  of the container, in document order.
\<close>

definition querySelectorAll_script :: "node \<Rightarrow> script list" where
  "querySelectorAll_script c = concat (map scriptsOf (childNodes c))"

text \<open>
  The element a reference of the array \<open>scripts\<close> stands for, as it is in the tree now;
  \<open>None\<close> when it is no longer in the tree.
\<close>

definition getScript :: "ref \<Rightarrow> node \<Rightarrow> script option" where
  "getScript r c = find (\<lambda>sc. ident sc = r) (querySelectorAll_script c)"

fun firstSome :: "'a option list \<Rightarrow> 'a option" where
  "firstSome [] = None"
| "firstSome (None # xs) = firstSome xs"
| "firstSome (Some x # xs) = Some x"

fun script_child :: "ref \<Rightarrow> node \<Rightarrow> bool" where
  "script_child x (ScriptElement sc) = (ident sc = x)"
| "script_child x (Text t) = False"
| "script_child x (Element r tg as cs) = False"

text \<open>
  \<^verbatim>\<open>oldScript.parentNode\<close>: the element that has the script element \<open>x\<close> among its
  children, \<open>None\<close> (null) when no element of the tree has.
\<close>

fun parentNode :: "ref \<Rightarrow> node \<Rightarrow> ref option" where
  "parentNode x (Element r tg as cs) =
     (if \<exists>c \<in> set cs. script_child x c then Some r
      else firstSome (map (parentNode x) cs))"
| "parentNode x (Text t) = None"
| "parentNode x (ScriptElement sc) = None"

text \<open>The child list of the element with reference \<open>p\<close>.\<close>

fun childNodesOf :: "ref \<Rightarrow> node \<Rightarrow> node list option" where
  "childNodesOf p (Element r tg as cs) =
     (if r = p then Some cs else firstSome (map (childNodesOf p) cs))"
| "childNodesOf p (Text t) = None"
| "childNodesOf p (ScriptElement sc) = None"

text \<open>
  An attribute list after an attribute was set: the value of an attribute of that name
  is replaced where it stands, a new attribute goes last.
\<close>

fun setAttr :: "string \<Rightarrow> string \<Rightarrow> attr list \<Rightarrow> attr list" where
  "setAttr n v [] = [(n, v)]"
| "setAttr n v ((m, w) # as) = (if m = n then (m, v) # as else (m, w) # setAttr n v as)"

text \<open>
  A name in ASCII lower case: \<open>setAttribute\<close> on an HTML element of an HTML document
  takes the name in this form.
\<close>

definition ascii_lower :: "char \<Rightarrow> char" where
  "ascii_lower c =
     (case map_of (zip ''ABCDEFGHIJKLMNOPQRSTUVWXYZ'' ''abcdefghijklmnopqrstuvwxyz'') c of
        None \<Rightarrow> c
      | Some d \<Rightarrow> d)"

definition lower :: "string \<Rightarrow> string" where
  "lower n = map ascii_lower n"

definition set_textContent :: "string \<Rightarrow> script \<Rightarrow> script" where
  "set_textContent t sc = Script (ident sc) (attributes sc) t"

text \<open>
  The truth value of \<^verbatim>\<open>newScript.src\<close>. The property reflects the \<open>src\<close> attribute as
  a URL: it is the empty string when the element has no such attribute, and the
  attribute's value resolved against the address of the document, a non-empty string,
  when it has one.
\<close>

definition has_src :: "script \<Rightarrow> bool" where
  "has_src sc = (map_of (attributes sc) ''src'' \<noteq> None)"

text \<open>
  \<^verbatim>\<open>oldScript.parentNode.replaceChild(newScript, oldScript)\<close> on the tree: the script
  element \<open>old\<close> gives its place in the child list of its parent to \<open>new\<close>.
\<close>

fun replaceChild :: "script \<Rightarrow> ref \<Rightarrow> node \<Rightarrow> node" where
  "replaceChild new old (Text t) = Text t"
| "replaceChild new old (ScriptElement sc) =
     (if ident sc = old then ScriptElement new else ScriptElement sc)"
| "replaceChild new old (Element r tg as cs) = Element r tg as (map (replaceChild new old) cs)"

text \<open>
  The operations of an element that \<^verbatim>\<open>render\<close> uses. It assigns the properties
  \<open>placeholder\<close>, \<open>disabled\<close> and \<open>hidden\<close>, which set the attribute of that name.
\<close>

fun el_attributes :: "node \<Rightarrow> attr list" where
  "el_attributes (Element r tg as cs) = as"
| "el_attributes (ScriptElement sc) = attributes sc"
| "el_attributes (Text t) = []"

fun el_setAttribute :: "string \<Rightarrow> string \<Rightarrow> node \<Rightarrow> node" where
  "el_setAttribute n v (Element r tg as cs) = Element r tg (setAttr n v as) cs"
| "el_setAttribute n v (ScriptElement sc) =
     ScriptElement (Script (ident sc) (setAttr n v (attributes sc)) (textContent sc))"
| "el_setAttribute n v (Text t) = Text t"

fun set_children :: "node list \<Rightarrow> node \<Rightarrow> node" where
  "set_children cs (Element r tg as old) = Element r tg as cs"
| "set_children cs (Text t) = Text t"
| "set_children cs (ScriptElement sc) = ScriptElement sc"

definition el_set_textContent :: "string \<Rightarrow> node \<Rightarrow> node" where
  "el_set_textContent t el = set_children (if t = [] then [] else [Text t]) el"

fun appendChild :: "node \<Rightarrow> node \<Rightarrow> node" where
  "appendChild child (Element r tg as cs) = Element r tg as (cs @ [child])"
| "appendChild child (Text t) = Text t"
| "appendChild child (ScriptElement sc) = ScriptElement sc"

text \<open>
  \<^verbatim>\<open>classList.add(t1, t2)\<close>: the tokens of the \<open>class\<close> attribute, each once, the new
  ones last. The DOM raises when a token is empty or holds white space.
\<close>

definition is_space :: "char \<Rightarrow> bool" where
  "is_space c \<longleftrightarrow> c \<in> set [CHR '' '', CHR 0x09, CHR 0x0A, CHR 0x0C, CHR 0x0D]"

fun tokens_acc :: "string \<Rightarrow> string \<Rightarrow> string list" where
  "tokens_acc cur [] = (if cur = [] then [] else [cur])"
| "tokens_acc cur (c # cs) =
     (if is_space c then (if cur = [] then tokens_acc [] cs else cur # tokens_acc [] cs)
      else tokens_acc (cur @ [c]) cs)"

definition tokens :: "string \<Rightarrow> string list" where
  "tokens s = tokens_acc [] s"

fun join :: "string list \<Rightarrow> string" where
  "join [] = []"
| "join [t] = t"
| "join (t # ts) = t @ '' '' @ join ts"

definition valid_token :: "string \<Rightarrow> bool" where
  "valid_token t \<longleftrightarrow> t \<noteq> [] \<and> \<not> list_ex is_space t"

datatype error = TypeError | DOMException | InvalidCharacterError | RangeError

definition classList_add :: "string list \<Rightarrow> node \<Rightarrow> error + node" where
  "classList_add ts el =
     (if list_all valid_token ts
      then Inr (el_setAttribute ''class''
                  (join (rev (remdups (rev
                     ((case map_of (el_attributes el) ''class'' of
                         None \<Rightarrow> []
                       | Some v \<Rightarrow> tokens v) @ ts)))))
                  el)
      else Inl DOMException)"

section \<open>The page\<close>

text \<open>
  A handler assigned to \<open>onload\<close> or \<open>onerror\<close> is the closure
  \<^verbatim>\<open>() => runNext(index + 1)\<close>; it captures the array \<open>scripts\<close> and \<open>index\<close>.
  A timer or listener callback is one of the three arrow functions of the class.
\<close>

datatype handler = RunNext "ref list" nat

datatype callback = CallExecuteScripts ref | CallResize | CallOnInput

text \<open>
  What the browser does to a script element is recorded in the history of the page: a
  script element was put in the place of another, a script ran (at its insertion, or
  when its source had loaded), a script ran at some later time, the load of an
  external script failed.
\<close>

datatype event = Swapped ref script | Ran script | RanLater script | Failed script

text \<open>
  What the browser sends: the load and error events of a script element, and the
  moment at which it runs a script that it had put off.
\<close>

datatype signal = Load ref | Error ref | Runs ref

text \<open>
  The state the code works on: the tree under the container, the next fresh reference,
  the \<open>onload\<close> and \<open>onerror\<close> properties that were assigned, the script elements
  whose external source is being fetched, the inline scripts that the browser has put
  off, the history, the pending timers (callback and delay in milliseconds) and the
  event listeners.
\<close>

record page =
  container :: node
  next_ref :: ref
  onload :: "(ref \<times> handler) list"
  onerror :: "(ref \<times> handler) list"
  fetching :: "script list"
  deferred :: "script list"
  history :: "event list"
  timers :: "(callback \<times> nat) list"
  listeners :: "(ref \<times> string \<times> callback) list"

section \<open>The browser\<close>

text \<open>
  What the code cannot decide is a parameter, the browser:

  \<^item> \<open>accepts\<close>, the attribute names that \<open>setAttribute\<close> takes; on any other name it
    raises an \<open>InvalidCharacterError\<close>. The markup parser takes more names than
    \<open>setAttribute\<close> does.
  \<^item> \<open>kind\<close>, what the browser takes a script element with given attributes for: a
    classic script, a module script, or a block of data, which it never runs. It
    decides by the attributes \<open>type\<close>, \<open>language\<close> and \<open>nomodule\<close>.
  \<^item> \<open>behaviour\<close>, what a script does when it runs: from the script element, the
    tree and the next fresh reference it gives the tree and the fresh reference after
    the run, and the running element itself as it is then (a script can change its
    own attributes through \<open>document.currentScript\<close>).
  \<^item> \<open>stack\<close>, the number of calls of \<open>runNext\<close>, one inside the other, that the
    call stack has room for.
\<close>

datatype script_kind = Classic | Module | Data

record effect =
  new_tree :: node
  new_ref :: ref
  self :: script

record browser =
  accepts :: "string \<Rightarrow> bool"
  kind :: "attr list \<Rightarrow> script_kind"
  behaviour :: "script \<Rightarrow> node \<Rightarrow> ref \<Rightarrow> effect"
  stack :: nat

text \<open>
  \<^verbatim>\<open>newScript.setAttribute(name, value)\<close> on a script element, line 192: it raises
  on a name that the browser does not accept, and sets the attribute of the name in
  lower case otherwise.
\<close>

definition setAttribute :: "browser \<Rightarrow> string \<Rightarrow> string \<Rightarrow> script \<Rightarrow> error + script" where
  "setAttribute E n v sc =
     (if accepts E n
      then Inr (Script (ident sc) (setAttr (lower n) v (attributes sc)) (textContent sc))
      else Inl InvalidCharacterError)"

text \<open>A script runs: the page after it. A script that was put off runs the same way.\<close>

definition execute :: "browser \<Rightarrow> script \<Rightarrow> page \<Rightarrow> page" where
  "execute E sc s =
     (let d = behaviour E sc (container s) (next_ref s)
      in s\<lparr> container := new_tree d, next_ref := new_ref d, history := history s @ [Ran sc] \<rparr>)"

definition execute_later :: "browser \<Rightarrow> script \<Rightarrow> page \<Rightarrow> page" where
  "execute_later E sc s =
     (let d = behaviour E sc (container s) (next_ref s)
      in s\<lparr> container := new_tree d, next_ref := new_ref d,
            history := history s @ [RanLater sc] \<rparr>)"

text \<open>
  A script element that is put into the document (the container is in the document
  when the pass runs). One with a source is waited for: when the browser takes the
  element for a script, it answers with a load event, before which the script has
  run, or with an error event; it never answers for a block of data. One without a
  source and without text does nothing. One without a source and with text runs at
  once, inside the call that inserts it, when it is a classic script; a module
  script is put off and runs at some later time; a block of data never runs.
\<close>

definition runs_at_insertion :: "browser \<Rightarrow> script \<Rightarrow> bool" where
  "runs_at_insertion E sc \<longleftrightarrow>
     \<not> has_src sc \<and> textContent sc \<noteq> [] \<and> kind E (attributes sc) = Classic"

definition inserted :: "browser \<Rightarrow> script \<Rightarrow> page \<Rightarrow> page" where
  "inserted E sc s =
     (if has_src sc then s\<lparr> fetching := fetching s @ [sc] \<rparr>
      else if textContent sc = [] then s
      else (case kind E (attributes sc) of
              Classic \<Rightarrow> execute E sc s
            | Module \<Rightarrow> s\<lparr> deferred := deferred s @ [sc] \<rparr>
            | Data \<Rightarrow> s))"

text \<open>
  The element \<open>newScript\<close> as it is when the call of \<open>replaceChild\<close> has returned:
  a script that ran inside the call may have changed it.
\<close>

definition live_after :: "browser \<Rightarrow> script \<Rightarrow> page \<Rightarrow> script" where
  "live_after E sc s =
     (if runs_at_insertion E sc then self (behaviour E sc (container s) (next_ref s)) else sc)"

text \<open>
  \<^verbatim>\<open>document.createElement(tag)\<close>: a new element, with a fresh reference, no
  attributes and no children; the second function is the one for the tag \<open>script\<close>.
\<close>

definition createElement :: "string \<Rightarrow> page \<Rightarrow> node \<times> page" where
  "createElement tg s = (Element (next_ref s) tg [] [], s\<lparr> next_ref := Suc (next_ref s) \<rparr>)"

definition createScriptElement :: "page \<Rightarrow> script \<times> page" where
  "createScriptElement s = (Script (next_ref s) [] [], s\<lparr> next_ref := Suc (next_ref s) \<rparr>)"

definition setTimeout :: "callback \<Rightarrow> nat \<Rightarrow> page \<Rightarrow> page" where
  "setTimeout cb ms s = s\<lparr> timers := timers s @ [(cb, ms)] \<rparr>"

definition addEventListener :: "node \<Rightarrow> string \<Rightarrow> callback \<Rightarrow> page \<Rightarrow> page" where
  "addEventListener el ty cb s =
     (case node_ref el of
        None \<Rightarrow> s
      | Some r \<Rightarrow> s\<lparr> listeners := listeners s @ [(r, ty, cb)] \<rparr>)"

text \<open>
  The markup parser is a parameter: from the next fresh reference and the markup it
  gives the nodes it builds and the next fresh reference after them. Assigning
  \<open>innerHTML\<close> runs no script: the page changes in the fresh reference only.
\<close>

type_synonym parser = "ref \<Rightarrow> string \<Rightarrow> node list \<times> ref"

definition set_innerHTML :: "parser \<Rightarrow> string \<Rightarrow> node \<Rightarrow> page \<Rightarrow> node \<times> page" where
  "set_innerHTML parse markup el s =
     (let (cs, n) = parse (next_ref s) markup
      in (set_children cs el, s\<lparr> next_ref := n \<rparr>))"

section \<open>The render operation\<close>

text \<open>
  \<^verbatim>\<open>render()\<close>, lines 104 to 142. The result is the wrapper, the instance (its field
  \<open>textarea\<close> is assigned) and the page; when \<open>classList.add\<close> raises, the error
  with the instance and the page as they are then.
\<close>

definition render ::
  "parser \<Rightarrow> raw_tool \<Rightarrow> page \<Rightarrow>
     (error \<times> raw_tool \<times> page) + (node \<times> raw_tool \<times> page)" where
  "render parse this s =
     (let (wrapper, s) = createElement ''div'' s;
          renderingTime = 100;
          (ta, s) = createElement ''textarea'' s;
          this = this\<lparr> textarea := node_ref ta \<rparr>
      in case classList_add [baseClass (CSS this), css_names.wrapper (CSS this)] wrapper of
           Inl e \<Rightarrow> Inl (e, this, s)
         | Inr wrapper \<Rightarrow>
            (case classList_add [css_textarea (CSS this), css_input (CSS this)] ta of
               Inl e \<Rightarrow> Inl (e, this, s)
             | Inr ta \<Rightarrow>
                (let ta = el_set_textContent (nullableString (html (data this))) ta;
                     ta = el_setAttribute ''placeholder'' (toString (placeholder this)) ta;
                     (ta, s) =
                       (if readOnly this
                        then (el_setAttribute ''hidden'' []
                                (el_setAttribute ''disabled'' [] ta), s)
                        else (ta, addEventListener ta ''input'' CallOnInput s));
                     wrapper = appendChild ta wrapper;
                     (wrapper, s) =
                       (if readOnly this
                        then (let (c, s) = createElement ''div'' s;
                                  (c, s) = set_innerHTML parse
                                             (legacyNullString (html (data this))) c s;
                                  wrapper = appendChild c wrapper
                              in (wrapper,
                                  case node_ref c of
                                    None \<Rightarrow> s
                                  | Some r \<Rightarrow> setTimeout (CallExecuteScripts r) renderingTime s))
                        else (wrapper, s));
                     s = setTimeout CallResize renderingTime s
                 in Inr (wrapper, this, s))))"

section \<open>The script rehydrator\<close>

text \<open>
  The loop of lines 191 to 193: every attribute of the original is set on the new
  element in turn; the first call that raises ends the loop.
\<close>

fun copyAttributes :: "browser \<Rightarrow> attr list \<Rightarrow> script \<Rightarrow> error + script" where
  "copyAttributes E [] el = Inr el"
| "copyAttributes E ((n, v) # as) el =
     (case setAttribute E n v el of
        Inl e \<Rightarrow> Inl e
      | Inr el' \<Rightarrow> copyAttributes E as el')"

text \<open>
  Lines 188 to 202 of \<^verbatim>\<open>runNext\<close>: the replacement is created, the attributes and the
  text are copied, the handlers are assigned when the replacement has a source, and
  the replacement takes the place of the original. When \<open>setAttribute\<close> raises, the
  element created before is garbage and the tree is as it was. \<open>parentNode\<close> is null
  for an element that is no longer in the tree, and the call of \<open>replaceChild\<close> on it
  raises a TypeError. The tree of the model is the tree under the container: an
  original that a script has taken out of it is gone for the model, which does not
  keep what such an element holds, and goes from the creation of the new element to
  the call that raises.
\<close>

definition replaceScript ::
  "browser \<Rightarrow> ref list \<Rightarrow> nat \<Rightarrow> page \<Rightarrow> (error \<times> page) + (script \<times> page)" where
  "replaceScript E scripts index s =
     (let oldScript = scripts ! index;
          found = getScript oldScript (container s);
          (newScript, s) = createScriptElement s
      in case found of
           None \<Rightarrow> Inl (TypeError, s)
         | Some old \<Rightarrow>
             (case copyAttributes E (attributes old) newScript of
                Inl e \<Rightarrow> Inl (e, s)
              | Inr newScript \<Rightarrow>
                  let newScript = set_textContent (textContent old) newScript;
                      s = (if has_src newScript
                           then s\<lparr> onload := (ident newScript, RunNext scripts index) # onload s,
                                   onerror := (ident newScript, RunNext scripts index) # onerror s \<rparr>
                           else s)
                  in (case parentNode oldScript (container s) of
                        None \<Rightarrow> Inl (TypeError, s)
                      | Some p \<Rightarrow>
                          Inr (newScript,
                               s\<lparr> container := replaceChild newScript oldScript (container s),
                                  history := history s @ [Swapped oldScript newScript] \<rparr>))))"

text \<open>
  \<^verbatim>\<open>runNext(index)\<close>, lines 185 to 207. The result is \<open>Inr\<close> of the page when the call
  returns, \<open>Inl\<close> of the error and the page when it raises. The test of line 197 reads
  \<^verbatim>\<open>newScript.src\<close> before the element is in the document, the test of line 204 reads
  it from the element as it is after \<open>replaceChild\<close>, when an inline script has run.
  The call of line 205 is a call inside the call: \<open>depth\<close> counts the calls of
  \<open>runNext\<close> that are on the stack below this one, and a call that the stack has no
  room for raises a RangeError.
\<close>

function runNext ::
  "browser \<Rightarrow> ref list \<Rightarrow> nat \<Rightarrow> nat \<Rightarrow> page \<Rightarrow> (error \<times> page) + page" where
  "runNext E scripts index depth s =
     (if index \<ge> length scripts then Inr s
      else (case replaceScript E scripts index s of
              Inl e \<Rightarrow> Inl e
            | Inr (newScript, s1) \<Rightarrow>
                (let s2 = inserted E newScript s1;
                     live = live_after E newScript s1
                 in if \<not> has_src live
                    then (if Suc depth < stack E
                          then runNext E scripts (index + 1) (Suc depth) s2
                          else Inl (RangeError, s2))
                    else Inr s2)))"
  by pat_completeness auto
termination
  by (relation "measure (\<lambda>(E, scripts, index, depth, s). length scripts - index)") auto

declare runNext.simps [simp del]

text \<open>
  \<^verbatim>\<open>_executeScripts(container)\<close>, lines 182 to 210: the array \<open>scripts\<close> is filled
  once, from the tree as it is when the call starts.
\<close>

definition executeScripts :: "browser \<Rightarrow> page \<Rightarrow> (error \<times> page) + page" where
  "executeScripts E s =
     runNext E (map ident (querySelectorAll_script (container s))) 0 0 s"

text \<open>
  The browser fires a load or an error event at a script element whose source it is
  fetching, once, and the handler assigned to the element runs, on a stack of its
  own. Before a load event the script has run. An event for an element that is not
  being fetched does nothing. A script that was put off runs once.
\<close>

fun fire :: "browser \<Rightarrow> signal \<Rightarrow> page \<Rightarrow> (error \<times> page) + page" where
  "fire E (Load r) s =
     (case find (\<lambda>sc. ident sc = r) (fetching s) of
        None \<Rightarrow> Inr s
      | Some sc \<Rightarrow>
          let s1 = execute E sc (s\<lparr> fetching := removeAll sc (fetching s) \<rparr>)
          in (case map_of (onload s1) r of
                None \<Rightarrow> Inr s1
              | Some (RunNext scripts index) \<Rightarrow> runNext E scripts (index + 1) 0 s1))"
| "fire E (Error r) s =
     (case find (\<lambda>sc. ident sc = r) (fetching s) of
        None \<Rightarrow> Inr s
      | Some sc \<Rightarrow>
          let s1 = s\<lparr> fetching := removeAll sc (fetching s),
                      history := history s @ [Failed sc] \<rparr>
          in (case map_of (onerror s1) r of
                None \<Rightarrow> Inr s1
              | Some (RunNext scripts index) \<Rightarrow> runNext E scripts (index + 1) 0 s1))"
| "fire E (Runs r) s =
     (case find (\<lambda>sc. ident sc = r) (deferred s) of
        None \<Rightarrow> Inr s
      | Some sc \<Rightarrow> Inr (execute_later E sc (s\<lparr> deferred := removeAll sc (deferred s) \<rparr>)))"

text \<open>The page of a result.\<close>

fun state_of :: "(error \<times> page) + page \<Rightarrow> page" where
  "state_of (Inl (e, s)) = s"
| "state_of (Inr s) = s"


text \<open>
  The network answers each fetch in turn: \<open>True\<close> is a load, \<open>False\<close> a failure.
  Nothing is left to answer when no script is being fetched, and no answer ever comes
  for an element that the browser does not take for a script.
\<close>

fun settle :: "browser \<Rightarrow> bool list \<Rightarrow> (error \<times> page) + page \<Rightarrow> (error \<times> page) + page" where
  "settle E [] res = res"
| "settle E (ok # oks) res =
     (case res of
        Inl x \<Rightarrow> Inl x
      | Inr s \<Rightarrow>
          (case fetching s of
             [] \<Rightarrow> Inr s
           | sc # rest \<Rightarrow>
               if kind E (attributes sc) = Data then Inr s
               else settle E oks (fire E (if ok then Load (ident sc) else Error (ident sc)) s)))"

section \<open>Properties of a history\<close>


text \<open>The originals that were replaced, in the order of their replacement.\<close>

fun swapped :: "event list \<Rightarrow> ref list" where
  "swapped [] = []"
| "swapped (Swapped old new # tr) = old # swapped tr"
| "swapped (Ran sc # tr) = swapped tr"
| "swapped (RanLater sc # tr) = swapped tr"
| "swapped (Failed sc # tr) = swapped tr"

text \<open>The scripts that ran, in the order in which they ran.\<close>

fun executed :: "event list \<Rightarrow> script list" where
  "executed [] = []"
| "executed (Ran sc # tr) = sc # executed tr"
| "executed (RanLater sc # tr) = sc # executed tr"
| "executed (Swapped old new # tr) = executed tr"
| "executed (Failed sc # tr) = executed tr"

text \<open>A history without the runs of the scripts that were put off.\<close>

fun put_off :: "event \<Rightarrow> bool" where
  "put_off (RanLater sc) = True"
| "put_off (Ran sc) = False"
| "put_off (Swapped old new) = False"
| "put_off (Failed sc) = False"

definition in_order :: "event list \<Rightarrow> event list" where
  "in_order tr = filter (\<lambda>e. \<not> put_off e) tr"


text \<open>The number of runs of inline scripts in a history.\<close>

fun inline_runs :: "event list \<Rightarrow> nat" where
  "inline_runs [] = 0"
| "inline_runs (Ran sc # tr) = (if has_src sc then 0 else 1) + inline_runs tr"
| "inline_runs (RanLater sc # tr) = (if has_src sc then 0 else 1) + inline_runs tr"
| "inline_runs (Swapped old new # tr) = inline_runs tr"
| "inline_runs (Failed sc # tr) = inline_runs tr"

section \<open>Conditions on the page and on the scripts\<close>

text \<open>
  The references of the script elements are distinct and older than the next fresh
  one.
\<close>

definition scripts_wf :: "page \<Rightarrow> bool" where
  "scripts_wf s \<longleftrightarrow>
     distinct (map ident (querySelectorAll_script (container s))) \<and>
     (\<forall>sc \<in> set (querySelectorAll_script (container s)). ident sc < next_ref s)"

text \<open>
  The attributes of a script element can be copied when \<open>setAttribute\<close> accepts every
  name. They are as the parser leaves them on an HTML element when, moreover, the
  names are in lower case and no name stands twice.
\<close>

definition copyable :: "browser \<Rightarrow> script \<Rightarrow> bool" where
  "copyable E sc \<longleftrightarrow> list_all (\<lambda>a. accepts E (fst a)) (attributes sc)"

definition parsed :: "browser \<Rightarrow> script \<Rightarrow> bool" where
  "parsed E sc \<longleftrightarrow>
     copyable E sc \<and>
     list_all (\<lambda>a. lower (fst a) = fst a) (attributes sc) \<and>
     distinct (map fst (attributes sc))"

text \<open>
  The element that lines 189 to 195 build for the script element \<open>old\<close> when no call
  raises: it has the fresh reference \<open>r\<close>, the attributes of \<open>old\<close> set in turn, each
  under its name in lower case, and the text of \<open>old\<close>.
\<close>

definition copied :: "attr list \<Rightarrow> attr list" where
  "copied as = foldl (\<lambda>acc a. setAttr (lower (fst a)) (snd a) acc) [] as"

definition copyOf :: "ref \<Rightarrow> script \<Rightarrow> script" where
  "copyOf r old = Script r (copied (attributes old)) (textContent old)"

text \<open>
  The copy of a script element is answered when, having a source, it is not a block
  of data for the browser: a load or an error event will come.
\<close>

definition answered :: "browser \<Rightarrow> script \<Rightarrow> bool" where
  "answered E sc \<longleftrightarrow>
     (map_of (copied (attributes sc)) ''src'' = None \<or>
      kind E (copied (attributes sc)) \<noteq> Data)"

text \<open>
  A script element is ready in a tree when it is in the tree, its attributes can be
  copied and its copy is answered. Conditions on what the scripts do: they keep the
  scripts when a script element that is ready is still ready after any script has
  run (scripts may add elements), and the fresh reference does not go back; they keep
  off their source when a script that runs without a source gives itself none; they
  leave the scripts alone when the list of script elements is the same after any
  script has run, and the fresh reference does not go back.
\<close>

definition ready :: "browser \<Rightarrow> ref \<Rightarrow> node \<Rightarrow> bool" where
  "ready E r c \<longleftrightarrow>
     (case getScript r c of None \<Rightarrow> False | Some old \<Rightarrow> copyable E old \<and> answered E old)"


definition keeps_off_src :: "browser \<Rightarrow> bool" where
  "keeps_off_src E \<longleftrightarrow>
     (\<forall>sc c n. \<not> has_src sc \<longrightarrow> \<not> has_src (self (behaviour E sc c n)))"

definition leaves_scripts :: "browser \<Rightarrow> bool" where
  "leaves_scripts E \<longleftrightarrow>
     (\<forall>sc c n. querySelectorAll_script (new_tree (behaviour E sc c n)) =
                 querySelectorAll_script c \<and>
               n \<le> new_ref (behaviour E sc c n))"

section \<open>The state of a pass\<close>

text \<open>
  What a pass records for one original: the replacement, and what completes it.
  A replacement with a source is completed by its run or by its failure to load, one
  that runs at its insertion by its run, any other by nothing.
\<close>

fun completion :: "bool \<Rightarrow> script \<Rightarrow> event" where
  "completion True sc = Ran sc"
| "completion False sc = Failed sc"

fun block_of :: "browser \<Rightarrow> ref \<times> script \<times> bool \<Rightarrow> event list" where
  "block_of E (old, new, ok) =
     Swapped old new #
       (if has_src new then [completion ok new]
        else if runs_at_insertion E new then [Ran new]
        else [])"

definition blocks :: "browser \<Rightarrow> (ref \<times> script \<times> bool) list \<Rightarrow> event list" where
  "blocks E bs = concat (map (block_of E) bs)"

text \<open>Whether the replacement of such a record has run.\<close>

fun ran :: "browser \<Rightarrow> ref \<times> script \<times> bool \<Rightarrow> bool" where
  "ran E (old, new, ok) = (if has_src new then ok else runs_at_insertion E new)"

text \<open>
  The state of a pass over \<open>scripts\<close> that started with the history \<open>h0\<close>: some
  originals are done, each with its replacement and with how the replacement ended,
  and either no script is being fetched, or exactly the replacement of the next
  original is, with both handlers set to go on after it. Scripts that were put off may
  have run in between.
\<close>

definition waiting_on :: "ref list \<Rightarrow> nat \<Rightarrow> script \<Rightarrow> page \<Rightarrow> bool" where
  "waiting_on scripts k sc s \<longleftrightarrow>
     fetching s = [sc] \<and> has_src sc \<and>
     map_of (onload s) (ident sc) = Some (RunNext scripts k) \<and>
     map_of (onerror s) (ident sc) = Some (RunNext scripts k)"


text \<open>
  A pass that began with the history \<open>h0\<close> has made \<open>i\<close> replacements, and the
  originals that it has still to replace are ready and older than the next fresh
  reference.
\<close>

definition present :: "browser \<Rightarrow> ref list \<Rightarrow> event list \<Rightarrow> nat \<Rightarrow> page \<Rightarrow> bool" where
  "present E scripts h0 i s \<longleftrightarrow>
     (\<forall>j. i \<le> j \<and> j < length scripts \<longrightarrow>
          ready E (scripts ! j) (container s) \<and> scripts ! j < next_ref s) \<and>
     (\<exists>t. history s = h0 @ t \<and> length (swapped t) = i)"

text \<open>
  The page in a pass that has replaced the first \<open>i\<close> of the script elements \<open>Q0\<close>:
  in their places stand their copies, new elements with the references \<open>rs\<close>, and
  the others are untouched.
\<close>

definition copies :: "ref list \<Rightarrow> script list \<Rightarrow> script list" where
  "copies rs xs = map (\<lambda>(r, sc). copyOf r sc) (zip rs xs)"

definition rehydrated :: "browser \<Rightarrow> script list \<Rightarrow> event list \<Rightarrow> nat \<Rightarrow> page \<Rightarrow> bool" where
  "rehydrated E Q0 h0 i s \<longleftrightarrow>
     (\<exists>rs t. length rs = i \<and>
            querySelectorAll_script (container s) = copies rs (take i Q0) @ drop i Q0 \<and>
            distinct (map ident (copies rs (take i Q0) @ drop i Q0)) \<and>
            (\<forall>sc \<in> set (copies rs (take i Q0) @ drop i Q0). ident sc < next_ref s) \<and>
            (\<forall>sc \<in> set Q0. ident sc < next_ref s) \<and>
            (\<forall>r \<in> set rs. r \<notin> ident ` set Q0) \<and>
            history s = h0 @ t \<and>
            inline_runs t = length (filter (runs_at_insertion E) (take i Q0)))"

text \<open>
  The tree without the identity of its script elements, and scripts that leave the
  whole tree alone.
\<close>

fun anonymous :: "node \<Rightarrow> node" where
  "anonymous (Text t) = Text t"
| "anonymous (ScriptElement sc) = ScriptElement (Script 0 (attributes sc) (textContent sc))"
| "anonymous (Element r tg as cs) = Element r tg as (map anonymous cs)"

definition leaves_tree :: "browser \<Rightarrow> bool" where
  "leaves_tree E \<longleftrightarrow>
     (\<forall>sc c n. new_tree (behaviour E sc c n) = c \<and> n \<le> new_ref (behaviour E sc c n))"

definition unchanged :: "browser \<Rightarrow> script list \<Rightarrow> event list \<Rightarrow> node \<Rightarrow> nat \<Rightarrow> page \<Rightarrow> bool" where
  "unchanged E Q0 h0 c0 i s \<longleftrightarrow>
     rehydrated E Q0 h0 i s \<and> anonymous (container s) = anonymous c0"

section \<open>Examples\<close>

text \<open>
  A browser for the examples. It accepts the attribute names of the DOM standard: not
  empty, and without white space, the null character, \<open>/\<close>, \<open>=\<close> and \<open>>\<close>. It
  classifies a script element as the HTML standard does by the attributes \<open>type\<close>,
  \<open>language\<close> and \<open>nomodule\<close>: the type is a JavaScript type when it is absent or
  empty, or one of the sixteen names of the standard, whatever the case of its
  letters; a classic script with the attribute \<open>nomodule\<close> does not run; the type
  \<open>module\<close> is a module script; any other type is a block of data. Its stack has room
  for ten thousand calls.
\<close>

definition valid_attribute_name :: "string \<Rightarrow> bool" where
  "valid_attribute_name n \<longleftrightarrow>
     n \<noteq> [] \<and>
     \<not> list_ex (\<lambda>c. is_space c \<or> c \<in> set [CHR 0x00, CHR ''/'', CHR ''='', CHR ''>'']) n"

definition javascript_types :: "string list" where
  "javascript_types =
     [''application/ecmascript'', ''application/javascript'', ''application/x-ecmascript'',
      ''application/x-javascript'', ''text/ecmascript'', ''text/javascript'',
      ''text/javascript1.0'', ''text/javascript1.1'', ''text/javascript1.2'',
      ''text/javascript1.3'', ''text/javascript1.4'', ''text/javascript1.5'',
      ''text/jscript'', ''text/livescript'', ''text/x-ecmascript'', ''text/x-javascript'']"

definition strip :: "string \<Rightarrow> string" where
  "strip t = rev (dropWhile is_space (rev (dropWhile is_space t)))"

definition type_string :: "attr list \<Rightarrow> string" where
  "type_string as =
     (case map_of as ''type'' of
        Some t \<Rightarrow> (if t = [] then ''text/javascript'' else lower (strip t))
      | None \<Rightarrow>
          (case map_of as ''language'' of
             Some l \<Rightarrow> (if l = [] then ''text/javascript'' else lower (''text/'' @ l))
           | None \<Rightarrow> ''text/javascript''))"

definition script_type :: "attr list \<Rightarrow> script_kind" where
  "script_type as =
     (if type_string as \<in> set javascript_types
      then (if map_of as ''nomodule'' = None then Classic else Data)
      else if type_string as = ''module'' then Module
      else Data)"

definition browser_of :: "(script \<Rightarrow> node \<Rightarrow> ref \<Rightarrow> effect) \<Rightarrow> browser" where
  "browser_of B =
     \<lparr> accepts = valid_attribute_name, kind = script_type, behaviour = B, stack = 10000 \<rparr>"

text \<open>
  The markup
  \<^verbatim>\<open><p>hi</p><script>log.push(1)</script><script src="slow.js"></script><script>log.push(3)</script>\<close>
  in a container, and a page that holds it.
\<close>

definition demo :: node where
  "demo = Element 0 ''div'' []
     [Element 1 ''p'' [] [Text ''hi''],
      ScriptElement (Script 2 [] ''log.push(1)''),
      ScriptElement (Script 3 [(''src'', ''slow.js'')] []),
      ScriptElement (Script 4 [] ''log.push(3)'')]"





definition page_of :: "node \<Rightarrow> ref \<Rightarrow> page" where
  "page_of c n =
     \<lparr> container = c, next_ref = n, onload = [], onerror = [], fetching = [],
       deferred = [], history = [], timers = [], listeners = [] \<rparr>"

text \<open>
  Scripts that leave the document alone; scripts that each add a script element;
  scripts that each give their own element a source; scripts that each remove the
  last child of the container.
\<close>

definition inert :: "script \<Rightarrow> node \<Rightarrow> ref \<Rightarrow> effect" where
  "inert sc c n = \<lparr> new_tree = c, new_ref = n, self = sc \<rparr>"

definition adds_script :: "script \<Rightarrow> node \<Rightarrow> ref \<Rightarrow> effect" where
  "adds_script sc c n =
     \<lparr> new_tree = appendChild (ScriptElement (Script n [] ''late()'')) c,
       new_ref = Suc n, self = sc \<rparr>"



text \<open>
  A parser for the examples: whatever the markup, it builds a paragraph and an inline
  script.
\<close>

definition demo_parser :: parser where
  "demo_parser n markup =
     ([Element n ''p'' [] [Text ''hi''], ScriptElement (Script (Suc n) [] ''log.push(1)'')],
      Suc (Suc n))"

section \<open>Lemmas\<close>

subsection \<open>Copying the attributes\<close>

lemma setAttr_fresh: "n \<notin> fst ` set xs \<Longrightarrow> setAttr n v xs = xs @ [(n, v)]"
  by (induction n v xs rule: setAttr.induct) auto

lemma setAttr_names: "fst ` set (setAttr n v xs) = insert n (fst ` set xs)"
  by (induction n v xs rule: setAttr.induct) auto

lemma copyAttributes_eq:
  "copyAttributes E as el =
     (if list_all (\<lambda>a. accepts E (fst a)) as
      then Inr (Script (ident el)
                  (foldl (\<lambda>acc a. setAttr (lower (fst a)) (snd a) acc) (attributes el) as)
                  (textContent el))
      else Inl InvalidCharacterError)"
proof (induction as arbitrary: el)
  case Nil
  then show ?case by simp
next
  case (Cons a as)
  obtain n v where a: "a = (n, v)" by (cases a)
  show ?case
  proof (cases "accepts E n")
    case True
    then show ?thesis
      by (simp add: a setAttribute_def Cons.IH)
  next
    case False
    then show ?thesis
      by (simp add: a setAttribute_def)
  qed
qed

lemma foldl_setAttr_names:
  "fst ` set (foldl (\<lambda>acc a. setAttr (lower (fst a)) (snd a) acc) acc as) =
     fst ` set acc \<union> lower ` fst ` set as"
proof (induction as arbitrary: acc)
  case Nil
  then show ?case by simp
next
  case (Cons a as)
  show ?case
    unfolding foldl_Cons Cons.IH by (simp add: setAttr_names)
qed

lemma foldl_setAttr_parsed:
  assumes "list_all (\<lambda>a. lower (fst a) = fst a) as" "distinct (map fst as)"
    and "fst ` set acc \<inter> fst ` set as = {}"
  shows "foldl (\<lambda>acc a. setAttr (lower (fst a)) (snd a) acc) acc as = acc @ as"
  using assms
proof (induction as arbitrary: acc)
  case Nil
  then show ?case by simp
next
  case (Cons a as)
  have l: "lower (fst a) = fst a" using Cons.prems(1) by simp
  have fresh: "fst a \<notin> fst ` set acc" using Cons.prems(3) by auto
  have step: "setAttr (lower (fst a)) (snd a) acc = acc @ [a]"
    using setAttr_fresh [OF fresh, of "snd a"] l by simp
  have "foldl (\<lambda>acc a. setAttr (lower (fst a)) (snd a) acc) (acc @ [a]) as = (acc @ [a]) @ as"
  proof (rule Cons.IH)
    show "list_all (\<lambda>a. lower (fst a) = fst a) as" using Cons.prems(1) by simp
    show "distinct (map fst as)" using Cons.prems(2) by simp
    show "fst ` set (acc @ [a]) \<inter> fst ` set as = {}"
      using Cons.prems(2,3) by auto
  qed
  then show ?case by (simp add: step)
qed

lemma copied_names: "fst ` set (copied as) = lower ` fst ` set as"
  by (simp add: copied_def foldl_setAttr_names)

lemma copied_parsed:
  "list_all (\<lambda>a. lower (fst a) = fst a) as \<Longrightarrow> distinct (map fst as) \<Longrightarrow> copied as = as"
  using foldl_setAttr_parsed [of as "[]"] by (simp add: copied_def)

lemma has_src_names: "has_src sc \<longleftrightarrow> ''src'' \<in> fst ` set (attributes sc)"
  by (simp add: has_src_def map_of_eq_None_iff)

lemma lower_src: "lower ''src'' = ''src''"
  by (simp add: lower_def ascii_lower_def)

subsection \<open>Replacing one script element\<close>

lemma copyOf_ident [simp]: "ident (copyOf r old) = r"
  by (simp add: copyOf_def)

lemma copyOf_text [simp]: "textContent (copyOf r old) = textContent old"
  by (simp add: copyOf_def)

lemma copyOf_attributes [simp]: "attributes (copyOf r old) = copied (attributes old)"
  by (simp add: copyOf_def)

lemma copyOf_has_src: "has_src old \<Longrightarrow> has_src (copyOf r old)"
proof -
  assume "has_src old"
  then have "''src'' \<in> fst ` set (attributes old)" by (simp add: has_src_names)
  then have "lower ''src'' \<in> lower ` fst ` set (attributes old)" by (rule imageI)
  then show ?thesis by (simp add: has_src_names copied_names lower_src)
qed

lemma copied_of_parsed: "parsed E old \<Longrightarrow> copied (attributes old) = attributes old"
  by (simp add: parsed_def copied_parsed)

lemma copyOf_parsed: "parsed E old \<Longrightarrow> copyOf r old = Script r (attributes old) (textContent old)"
  by (simp add: copyOf_def copied_of_parsed)

lemma firstSome_None_iff: "firstSome xs = None \<longleftrightarrow> (\<forall>x \<in> set xs. x = None)"
  by (induction xs rule: firstSome.induct) auto

lemma scriptsOf_parent:
  "sc \<in> set (scriptsOf c) \<Longrightarrow> c = ScriptElement sc \<or> parentNode (ident sc) c \<noteq> None"
proof (induction c)
  case (Text t)
  then show ?case by simp
next
  case (ScriptElement x)
  then show ?case by simp
next
  case (Element r tg as cs)
  show ?case
  proof (cases "\<exists>c \<in> set cs. script_child (ident sc) c")
    case True
    then show ?thesis by simp
  next
    case False
    from Element.prems obtain c where c: "c \<in> set cs" "sc \<in> set (scriptsOf c)"
      by auto
    have "c \<noteq> ScriptElement sc"
      using False c(1) by auto
    with Element.IH c have "parentNode (ident sc) c \<noteq> None"
      by blast
    then have "firstSome (map (parentNode (ident sc)) cs) \<noteq> None"
      using c(1) by (auto simp: firstSome_None_iff)
    then show ?thesis
      using False by simp
  qed
qed

lemma getScript_Some:
  "getScript r c = Some sc \<Longrightarrow> ident sc = r \<and> sc \<in> set (querySelectorAll_script c)"
  by (auto simp: getScript_def find_Some_iff)

lemma getScript_parent:
  assumes "getScript r c = Some sc"
  shows "parentNode r c \<noteq> None"
proof -
  from assms have r: "ident sc = r" and m: "sc \<in> set (querySelectorAll_script c)"
    using getScript_Some by blast+
  then obtain r0 tg as cs where c: "c = Element r0 tg as cs"
    by (cases c) (auto simp: querySelectorAll_script_def)
  with m have "sc \<in> set (scriptsOf c)"
    by (simp add: querySelectorAll_script_def)
  with scriptsOf_parent [of sc c] c r show ?thesis
    by auto
qed

lemma replaceScript_eq:
  assumes "getScript (scripts ! i) (container s) = Some old"
  shows "replaceScript E scripts i s =
     (if copyable E old
      then Inr (copyOf (next_ref s) old,
                s\<lparr> next_ref := Suc (next_ref s),
                   onload := (if has_src (copyOf (next_ref s) old)
                              then (next_ref s, RunNext scripts i) # onload s else onload s),
                   onerror := (if has_src (copyOf (next_ref s) old)
                               then (next_ref s, RunNext scripts i) # onerror s else onerror s),
                   container := replaceChild (copyOf (next_ref s) old) (scripts ! i) (container s),
                   history := history s @ [Swapped (scripts ! i) (copyOf (next_ref s) old)] \<rparr>)
      else Inl (InvalidCharacterError, s\<lparr> next_ref := Suc (next_ref s) \<rparr>))"
proof -
  from getScript_parent [OF assms] obtain p where
    p: "parentNode (scripts ! i) (container s) = Some p" by auto
  show ?thesis
    by (simp add: replaceScript_def createScriptElement_def Let_def assms p copyAttributes_eq
          copyable_def copyOf_def copied_def set_textContent_def)
qed

lemma replaceScript_None:
  "getScript (scripts ! i) (container s) = None \<Longrightarrow>
   replaceScript E scripts i s = Inl (TypeError, s\<lparr> next_ref := Suc (next_ref s) \<rparr>)"
  by (simp add: replaceScript_def createScriptElement_def)


lemma replaceScript_Inr:
  assumes "replaceScript E scripts i s = Inr (new, s1)"
  shows "\<exists>old. getScript (scripts ! i) (container s) = Some old \<and> copyable E old \<and>
           new = copyOf (next_ref s) old \<and>
           container s1 = replaceChild new (scripts ! i) (container s) \<and>
           next_ref s1 = Suc (next_ref s) \<and>
           fetching s1 = fetching s \<and>
           deferred s1 = deferred s \<and>
           history s1 = history s @ [Swapped (scripts ! i) new] \<and>
           onload s1 = (if has_src new then (next_ref s, RunNext scripts i) # onload s else onload s) \<and>
           onerror s1 = (if has_src new then (next_ref s, RunNext scripts i) # onerror s else onerror s)"
proof (cases "getScript (scripts ! i) (container s)")
  case None
  with assms show ?thesis by (simp add: replaceScript_None)
next
  case (Some old)
  with assms show ?thesis
    by (auto simp: replaceScript_eq [OF Some] split: if_splits)
qed

lemma replaceScript_present:
  assumes "ready E (scripts ! i) (container s)"
  shows "\<exists>old s1. getScript (scripts ! i) (container s) = Some old \<and> copyable E old \<and>
           answered E old \<and>
           replaceScript E scripts i s = Inr (copyOf (next_ref s) old, s1)"
proof -
  from assms obtain old where old: "getScript (scripts ! i) (container s) = Some old"
    and c: "copyable E old" "answered E old"
    by (auto simp: ready_def split: option.splits)
  then show ?thesis by (simp add: replaceScript_eq [OF old])
qed

lemma answered_copy:
  "answered E old \<Longrightarrow> has_src (copyOf r old) \<Longrightarrow> kind E (attributes (copyOf r old)) \<noteq> Data"
  by (auto simp: answered_def has_src_def)

subsection \<open>The state of a pass\<close>

lemma in_order_append [simp]: "in_order (xs @ ys) = in_order xs @ in_order ys"
  by (simp add: in_order_def)

lemma in_order_Nil [simp]: "in_order [] = []"
  by (simp add: in_order_def)

lemma put_off_completion [simp]: "\<not> put_off (completion ok sc)"
  by (cases ok) simp_all

lemma in_order_block_of [simp]: "in_order (block_of E b) = block_of E b"
  by (cases b) (simp add: in_order_def)

lemma in_order_blocks [simp]: "in_order (blocks E bs) = blocks E bs"
  by (induction bs) (simp_all add: blocks_def)


lemma blocks_Nil [simp]: "blocks E [] = []"
  by (simp add: blocks_def)

lemma execute_fields [simp]:
  "fetching (execute E sc s) = fetching s"
  "deferred (execute E sc s) = deferred s"
  "history (execute E sc s) = history s @ [Ran sc]"
  "onload (execute E sc s) = onload s"
  "onerror (execute E sc s) = onerror s"
  by (simp_all add: execute_def Let_def)

lemma execute_later_fields [simp]:
  "fetching (execute_later E sc s) = fetching s"
  "deferred (execute_later E sc s) = deferred s"
  "history (execute_later E sc s) = history s @ [RanLater sc]"
  "onload (execute_later E sc s) = onload s"
  "onerror (execute_later E sc s) = onerror s"
  by (simp_all add: execute_later_def Let_def)


lemma inserted_src:
  "has_src sc \<Longrightarrow> inserted E sc s = s\<lparr> fetching := fetching s @ [sc] \<rparr>"
  by (simp add: inserted_def)

lemma inserted_inline:
  assumes "\<not> has_src sc"
  shows "fetching (inserted E sc s) = fetching s"
    and "onload (inserted E sc s) = onload s"
    and "onerror (inserted E sc s) = onerror s"
    and "history (inserted E sc s) = history s @ (if runs_at_insertion E sc then [Ran sc] else [])"
    and "runs_at_insertion E sc \<Longrightarrow> inserted E sc s = execute E sc s"
    and "\<not> runs_at_insertion E sc \<Longrightarrow> container (inserted E sc s) = container s"
    and "\<not> runs_at_insertion E sc \<Longrightarrow> next_ref (inserted E sc s) = next_ref s"
  using assms
  by (auto simp: inserted_def runs_at_insertion_def split: script_kind.splits)

lemma live_after_src: "has_src sc \<Longrightarrow> live_after E sc s = sc"
  by (simp add: live_after_def runs_at_insertion_def)

lemma live_after_keeps:
  "keeps_off_src E \<Longrightarrow> \<not> has_src sc \<Longrightarrow> \<not> has_src (live_after E sc s)"
  by (simp add: live_after_def keeps_off_src_def)

lemma runNext_done: "length scripts \<le> i \<Longrightarrow> runNext E scripts i d s = Inr s"
  by (simp add: runNext.simps)

lemma runNext_step:
  "i < length scripts \<Longrightarrow>
   runNext E scripts i d s =
     (case replaceScript E scripts i s of
        Inl e \<Rightarrow> Inl e
      | Inr (newScript, s1) \<Rightarrow>
          (if has_src (live_after E newScript s1) then Inr (inserted E newScript s1)
           else if Suc d < stack E
                then runNext E scripts (Suc i) (Suc d) (inserted E newScript s1)
                else Inl (RangeError, inserted E newScript s1)))"
  by (subst runNext.simps) (auto simp: Let_def split: sum.splits)



lemma fire_idle: "fetching s = [] \<Longrightarrow> fire E (Load r) s = Inr s \<and> fire E (Error r) s = Inr s"
  by simp

lemma fire_other:
  "fetching s = [sc] \<Longrightarrow> ident sc \<noteq> r \<Longrightarrow> fire E (Load r) s = Inr s \<and> fire E (Error r) s = Inr s"
  by simp

lemma fire_Load:
  assumes "waiting_on scripts k sc s"
  shows "fire E (Load (ident sc)) s =
           runNext E scripts (Suc k) 0 (execute E sc (s\<lparr> fetching := [] \<rparr>))"
  using assms by (simp add: waiting_on_def Let_def)

lemma fire_Error:
  assumes "waiting_on scripts k sc s"
  shows "fire E (Error (ident sc)) s =
           runNext E scripts (Suc k) 0 (s\<lparr> fetching := [], history := history s @ [Failed sc] \<rparr>)"
  using assms by (simp add: waiting_on_def Let_def)







subsection \<open>Sequential histories and the rule of a pass\<close>



lemma swapped_append [simp]: "swapped (xs @ ys) = swapped xs @ swapped ys"
  by (induction xs rule: swapped.induct) auto


lemma swapped_block_of [simp]: "swapped (block_of E (old, new, ok)) = [old]"
  by (cases ok) simp_all

lemma swapped_blocks [simp]: "swapped (blocks E bs) = map fst bs"
proof (induction bs)
  case Nil
  then show ?case by simp
next
  case (Cons b bs)
  obtain old new ok where b: "b = (old, new, ok)" by (cases b)
  have "blocks E (b # bs) = block_of E (old, new, ok) @ blocks E bs"
    by (simp add: blocks_def b)
  with Cons show ?case by (simp add: b del: block_of.simps)
qed


lemma settle_idle: "fetching s = [] \<Longrightarrow> settle E oks (Inr s) = Inr s"
  by (cases oks) simp_all

lemma pass_rule:
  assumes inline_step: "\<And>i s new s1. I i s \<Longrightarrow> fetching s = [] \<Longrightarrow> i < length scripts \<Longrightarrow>
              replaceScript E scripts i s = Inr (new, s1) \<Longrightarrow> \<not> has_src new \<Longrightarrow>
              I (Suc i) (inserted E new s1)"
    and load_step: "\<And>i s new s1. I i s \<Longrightarrow> fetching s = [] \<Longrightarrow> i < length scripts \<Longrightarrow>
              replaceScript E scripts i s = Inr (new, s1) \<Longrightarrow> has_src new \<Longrightarrow>
              I (Suc i) (execute E new s1)"
    and fail_step: "\<And>i s new s1. I i s \<Longrightarrow> fetching s = [] \<Longrightarrow> i < length scripts \<Longrightarrow>
              replaceScript E scripts i s = Inr (new, s1) \<Longrightarrow> has_src new \<Longrightarrow>
              I (Suc i) (s1\<lparr> history := history s1 @ [Failed new] \<rparr>)"
    and present: "\<And>i s. I i s \<Longrightarrow> i < length scripts \<Longrightarrow> ready E (scripts ! i) (container s)"
    and own: "keeps_off_src E"
  shows "I i s \<Longrightarrow> fetching s = [] \<Longrightarrow> i \<le> length scripts \<Longrightarrow>
         length scripts - i \<le> length oks \<Longrightarrow> d + (length scripts - i) < stack E \<Longrightarrow>
         \<exists>s'. settle E oks (runNext E scripts i d s) = Inr s' \<and> fetching s' = [] \<and>
              I (length scripts) s'"
proof (induction "length scripts - i" arbitrary: i s oks d)
  case 0
  then have "i = length scripts" by simp
  with 0 show ?case by (simp add: runNext_done settle_idle)
next
  case (Suc n)
  then have lt: "i < length scripts" by simp
  from replaceScript_present [OF present [OF Suc.prems(1) lt]] obtain old s1 where
    an: "answered E old"
    and rs: "replaceScript E scripts i s = Inr (copyOf (next_ref s) old, s1)" by blast
  let ?new = "copyOf (next_ref s) old"
  from replaceScript_Inr [OF rs]
  have f1: "fetching s1 = []"
    and ol: "onload s1 = (if has_src ?new then (next_ref s, RunNext scripts i) # onload s else onload s)"
    and oe: "onerror s1 = (if has_src ?new then (next_ref s, RunNext scripts i) # onerror s else onerror s)"
    using Suc.prems(2) by auto
  have n: "n = length scripts - Suc i" using Suc.hyps(2) by simp
  have le: "Suc i \<le> length scripts" using lt by simp
  show ?case
  proof (cases "has_src ?new")
    case False
    have I1: "I (Suc i) (inserted E ?new s1)"
      by (rule inline_step [OF Suc.prems(1,2) lt rs False])
    have room: "Suc d < stack E" using Suc.prems(5) lt by simp
    have r: "runNext E scripts i d s = runNext E scripts (Suc i) (Suc d) (inserted E ?new s1)"
      using lt rs room live_after_keeps [OF own False, of s1] by (simp add: runNext_step)
    have "\<exists>s'. settle E oks (runNext E scripts (Suc i) (Suc d) (inserted E ?new s1)) = Inr s' \<and>
               fetching s' = [] \<and> I (length scripts) s'"
    proof (rule Suc.hyps(1) [OF n I1 _ le])
      show "fetching (inserted E ?new s1) = []"
        using inserted_inline(1) [OF False] f1 by simp
      show "length scripts - Suc i \<le> length oks" using Suc.prems(4) by simp
      show "Suc d + (length scripts - Suc i) < stack E" using Suc.prems(5) lt by simp
    qed
    with r show ?thesis by simp
  next
    case True
    let ?s2 = "s1\<lparr> fetching := fetching s1 @ [?new] \<rparr>"
    have I1: "I (Suc i) (execute E ?new s1)"
      by (rule load_step [OF Suc.prems(1,2) lt rs True])
    have r: "runNext E scripts i d s = Inr ?s2"
      using lt rs True by (simp add: runNext_step live_after_src inserted_src)
    have w: "waiting_on scripts i ?new ?s2"
      using True f1 ol oe by (simp add: waiting_on_def)
    from Suc.prems(4) lt obtain ok oks' where oks: "oks = ok # oks'"
      by (cases oks) auto
    have len': "length scripts - Suc i \<le> length oks'"
      using Suc.prems(4) oks by simp
    have room: "0 + (length scripts - Suc i) < stack E" using Suc.prems(5) lt by simp
    have s2: "?s2\<lparr> fetching := [] \<rparr> = s1"
      using f1 by simp
    have "kind E (attributes ?new) \<noteq> Data"
      by (rule answered_copy [OF an True])
    then have st: "settle E oks (Inr ?s2) =
              settle E oks' (fire E (if ok then Load (ident ?new) else Error (ident ?new)) ?s2)"
      using f1 by (simp add: oks del: copyOf_attributes)
    show ?thesis
    proof (cases ok)
      case True
      have "fire E (Load (ident ?new)) ?s2 = runNext E scripts (Suc i) 0 (execute E ?new s1)"
        using fire_Load [OF w, of E] s2 by simp
      moreover have "\<exists>s'. settle E oks' (runNext E scripts (Suc i) 0 (execute E ?new s1)) = Inr s' \<and>
               fetching s' = [] \<and> I (length scripts) s'"
        by (rule Suc.hyps(1) [OF n I1 _ le len' room]) (use f1 in simp)
      ultimately show ?thesis using r st True by simp
    next
      case False
      let ?s3 = "s1\<lparr> history := history s1 @ [Failed ?new] \<rparr>"
      have I3: "I (Suc i) ?s3"
        by (rule fail_step [OF Suc.prems(1,2) lt rs \<open>has_src ?new\<close>])
      have "?s2\<lparr> fetching := [], history := history ?s2 @ [Failed ?new] \<rparr> = ?s3"
        using f1 by simp
      then have "fire E (Error (ident ?new)) ?s2 = runNext E scripts (Suc i) 0 ?s3"
        using fire_Error [OF w, of E] by simp
      moreover have "\<exists>s'. settle E oks' (runNext E scripts (Suc i) 0 ?s3) = Inr s' \<and>
               fetching s' = [] \<and> I (length scripts) s'"
        by (rule Suc.hyps(1) [OF n I3 _ le len' room]) (use f1 in simp)
      ultimately show ?thesis using r st False by simp
    qed
  qed
qed

subsection \<open>The scripts that remain\<close>

lemma scriptsOf_replaceChild:
  "scriptsOf (replaceChild new old c) =
     map (\<lambda>sc. if ident sc = old then new else sc) (scriptsOf c)"
proof (induction c)
  case (Element r tg as cs)
  have "map (\<lambda>c. scriptsOf (replaceChild new old c)) cs =
        map (\<lambda>c. map (\<lambda>sc. if ident sc = old then new else sc) (scriptsOf c)) cs"
    by (rule map_cong [OF refl]) (rule Element.IH)
  then have "concat (map (\<lambda>c. scriptsOf (replaceChild new old c)) cs) =
        concat (map (\<lambda>c. map (\<lambda>sc. if ident sc = old then new else sc) (scriptsOf c)) cs)"
    by (rule arg_cong)
  also have "\<dots> = map (\<lambda>sc. if ident sc = old then new else sc) (concat (map scriptsOf cs))"
    by (simp only: map_concat map_map comp_def)
  finally show ?case by (simp add: comp_def)
qed simp_all

lemma qsa_replaceChild:
  "querySelectorAll_script (replaceChild new old c) =
     map (\<lambda>sc. if ident sc = old then new else sc) (querySelectorAll_script c)"
proof (cases c)
  case (Element r tg as cs)
  have "scriptsOf (replaceChild new old c) =
        map (\<lambda>sc. if ident sc = old then new else sc) (scriptsOf c)"
    by (rule scriptsOf_replaceChild)
  then show ?thesis by (simp add: querySelectorAll_script_def Element)
qed (simp_all add: querySelectorAll_script_def)

lemma getScript_None_iff: "getScript r c = None \<longleftrightarrow> r \<notin> ident ` set (querySelectorAll_script c)"
  by (auto simp: getScript_def find_None_iff)



lemma execute_container:
  "container (execute E sc s) = new_tree (behaviour E sc (container s) (next_ref s))"
  "next_ref (execute E sc s) = new_ref (behaviour E sc (container s) (next_ref s))"
  by (simp_all add: execute_def Let_def)






lemma find_at:
  assumes "distinct (map ident (P @ x # R))"
  shows "find (\<lambda>sc. ident sc = ident x) (P @ x # R) = Some x"
proof -
  have "ident x \<notin> ident ` set P"
    using assms by auto
  then have "\<forall>sc \<in> set P. ident sc \<noteq> ident x"
    by (metis imageI)
  then show ?thesis by (induction P) auto
qed




subsection \<open>Two passes\<close>

lemma subst_at:
  assumes "distinct (map ident (P @ x # R))"
  shows "map (\<lambda>sc. if ident sc = ident x then y else sc) (P @ x # R) = P @ y # R"
proof -
  have "ident x \<notin> ident ` set P" "ident x \<notin> ident ` set R"
    using assms by auto
  then have "\<forall>sc \<in> set P \<union> set R. ident sc \<noteq> ident x"
    by (metis UnE imageI)
  then have "map (\<lambda>sc. if ident sc = ident x then y else sc) P = P"
    and "map (\<lambda>sc. if ident sc = ident x then y else sc) R = R"
    by (simp_all add: map_idI)
  then show ?thesis by simp
qed

lemma inline_runs_append [simp]: "inline_runs (xs @ ys) = inline_runs xs + inline_runs ys"
  by (induction xs rule: inline_runs.induct) auto

lemma copies_snoc:
  "length rs = length xs \<Longrightarrow> copies (rs @ [r]) (xs @ [x]) = copies rs xs @ [copyOf r x]"
  by (simp add: copies_def)

lemma copies_Nil [simp]: "copies [] xs = []"
  by (simp add: copies_def)

lemma copies_length [simp]: "length rs = length xs \<Longrightarrow> length (copies rs xs) = length xs"
  by (simp add: copies_def)

lemma copies_ident: "length rs = length xs \<Longrightarrow> map ident (copies rs xs) = rs"
  by (induction rs xs rule: list_induct2) (simp_all add: copies_def)

lemma copies_textContent:
  "length rs = length xs \<Longrightarrow> map textContent (copies rs xs) = map textContent xs"
  by (induction rs xs rule: list_induct2) (simp_all add: copies_def)

lemma copies_attributes:
  "length rs = length xs \<Longrightarrow> \<forall>sc \<in> set xs. parsed E sc \<Longrightarrow>
   map attributes (copies rs xs) = map attributes xs"
  by (induction rs xs rule: list_induct2) (simp_all add: copies_def copied_parsed parsed_def)

lemma same_runs_at_insertion:
  "attributes a = attributes b \<Longrightarrow> textContent a = textContent b \<Longrightarrow>
   runs_at_insertion E a = runs_at_insertion E b"
  by (simp add: runs_at_insertion_def has_src_def)

lemma same_parsed: "attributes a = attributes b \<Longrightarrow> parsed E a = parsed E b"
  by (simp add: parsed_def copyable_def)




lemma copies_parsed:
  "length rs = length xs \<Longrightarrow> \<forall>sc \<in> set xs. parsed E sc \<Longrightarrow>
   \<forall>sc \<in> set (copies rs xs). parsed E sc"
proof (induction rs xs rule: list_induct2)
  case Nil
  then show ?case by simp
next
  case (Cons r rs x xs)
  have "parsed E (copyOf r x) = parsed E x"
    by (rule same_parsed) (use Cons.prems in \<open>simp add: copied_parsed parsed_def\<close>)
  with Cons show ?case by (simp add: copies_def)
qed


lemma rehydrated_swap:
  assumes J: "rehydrated E Q0 h0 i s" and lt: "i < length Q0"
    and ps: "\<forall>sc \<in> set Q0. parsed E sc"
    and rs: "replaceScript E (map ident Q0) i s = Inr (new, s1)"
  shows "\<exists>rs t. length rs = Suc i \<and>
            querySelectorAll_script (container s1) = copies rs (take (Suc i) Q0) @ drop (Suc i) Q0 \<and>
            distinct (map ident (copies rs (take (Suc i) Q0) @ drop (Suc i) Q0)) \<and>
            (\<forall>sc \<in> set (copies rs (take (Suc i) Q0) @ drop (Suc i) Q0). ident sc < next_ref s1) \<and>
            (\<forall>sc \<in> set Q0. ident sc < next_ref s1) \<and>
            (\<forall>r \<in> set rs. r \<notin> ident ` set Q0) \<and>
            history s1 = h0 @ t @ [Swapped (ident (Q0 ! i)) new] \<and>
            inline_runs t = length (filter (runs_at_insertion E) (take i Q0)) \<and>
            has_src new = has_src (Q0 ! i) \<and>
            runs_at_insertion E new = runs_at_insertion E (Q0 ! i) \<and>
            container s1 = replaceChild new (ident (Q0 ! i)) (container s) \<and>
            new = copyOf (next_ref s) (Q0 ! i) \<and>
            getScript (ident (Q0 ! i)) (container s) = Some (Q0 ! i)"
proof -
  from J obtain rs t where lp: "length rs = i"
    and q: "querySelectorAll_script (container s) = copies rs (take i Q0) @ drop i Q0"
    and di: "distinct (map ident (copies rs (take i Q0) @ drop i Q0))"
    and bd: "\<forall>sc \<in> set (copies rs (take i Q0) @ drop i Q0). ident sc < next_ref s"
    and b0: "\<forall>sc \<in> set Q0. ident sc < next_ref s"
    and nw: "\<forall>r \<in> set rs. r \<notin> ident ` set Q0"
    and h: "history s = h0 @ t"
    and ir: "inline_runs t = length (filter (runs_at_insertion E) (take i Q0))"
    unfolding rehydrated_def by blast
  let ?P = "copies rs (take i Q0)"
  let ?x = "Q0 ! i" and ?R = "drop (Suc i) Q0"
  have lt': "length rs = length (take i Q0)" using lp lt by simp
  have dr: "drop i Q0 = ?x # ?R"
    using lt by (simp add: Cons_nth_drop_Suc)
  have di': "distinct (map ident (?P @ ?x # ?R))" using di dr by simp
  have nth: "map ident Q0 ! i = ident ?x" using lt by simp
  from replaceScript_Inr [OF rs] obtain old where
    old: "getScript (ident ?x) (container s) = Some old"
    and new: "new = copyOf (next_ref s) old"
    and c1: "container s1 = replaceChild new (ident ?x) (container s)"
    and n1: "next_ref s1 = Suc (next_ref s)"
    and h1: "history s1 = history s @ [Swapped (ident ?x) new]"
    unfolding nth by auto
  have g: "getScript (ident ?x) (container s) = Some ?x"
    unfolding getScript_def q dr by (rule find_at [OF di'])
  with old have o: "old = ?x" by simp
  have px: "parsed E ?x" using ps lt by simp
  have na: "attributes new = attributes ?x" "textContent new = textContent ?x"
    using new o by (simp_all add: copied_of_parsed [OF px])
  have cs: "copies (rs @ [next_ref s]) (take (Suc i) Q0) = ?P @ [new]"
    using copies_snoc [OF lt', of "next_ref s" ?x] lt new o
    by (simp add: take_Suc_conv_app_nth)
  have q1: "querySelectorAll_script (container s1) = (?P @ [new]) @ ?R"
    unfolding c1 qsa_replaceChild q dr using subst_at [OF di', of new] by simp
  have idn: "ident new = next_ref s" by (simp add: new)
  have hs: "has_src new = has_src ?x" using na by (simp add: has_src_def)
  have ri: "runs_at_insertion E new = runs_at_insertion E ?x"
    by (rule same_runs_at_insertion [OF na])
  have fresh: "\<forall>sc \<in> set ?P. ident sc < next_ref s" "\<forall>sc \<in> set ?R. ident sc < next_ref s"
    using bd dr by auto
  then have "next_ref s \<notin> ident ` set ?P" "next_ref s \<notin> ident ` set ?R"
    by (metis imageE less_irrefl)+
  then have d1: "distinct (map ident ((?P @ [new]) @ ?R))"
    using di' idn by auto
  have b1: "\<forall>sc \<in> set ((?P @ [new]) @ ?R). ident sc < next_ref s1"
    using fresh idn n1 by (auto simp: less_Suc_eq)
  have b01: "\<forall>sc \<in> set Q0. ident sc < next_ref s1"
    using b0 n1 by (auto simp: less_Suc_eq)
  have "next_ref s \<notin> ident ` set Q0"
    using b0 by (metis imageE less_irrefl)
  then have nw1: "\<forall>r \<in> set (rs @ [next_ref s]). r \<notin> ident ` set Q0"
    using nw by auto
  have l1: "length (rs @ [next_ref s]) = Suc i" using lp by simp
  have h1': "history s1 = h0 @ t @ [Swapped (ident ?x) new]"
    using h h1 by simp
  show ?thesis
    using l1 q1 d1 b1 b01 nw1 h1' ir hs ri c1 new o g
    unfolding cs [symmetric]
    by (intro exI [of _ "rs @ [next_ref s]"] exI [of _ t]) blast
qed

lemma count_take_Suc:
  "i < length Q0 \<Longrightarrow>
   length (filter P (take (Suc i) Q0)) =
     length (filter P (take i Q0)) + (if P (Q0 ! i) then 1 else 0)"
  by (simp add: take_Suc_conv_app_nth)

lemma rehydrated_step:
  assumes lv: "leaves_scripts E"
    and J: "rehydrated E Q0 h0 i s" and lt: "i < length Q0"
    and ps: "\<forall>sc \<in> set Q0. parsed E sc"
    and rs: "replaceScript E (map ident Q0) i s = Inr (new, s1)"
    and s2: "(s2 = execute E new s1 \<and> (has_src new \<or> runs_at_insertion E new)) \<or>
             (s2 = s1\<lparr> history := history s1 @ [Failed new] \<rparr> \<and> has_src new) \<or>
             (container s2 = container s1 \<and> next_ref s2 = next_ref s1 \<and>
              history s2 = history s1 \<and> \<not> runs_at_insertion E new)"
  shows "rehydrated E Q0 h0 (Suc i) s2"
proof -
  from rehydrated_swap [OF J lt ps rs] obtain rs t where
    lp: "length rs = Suc i"
    and q: "querySelectorAll_script (container s1) = copies rs (take (Suc i) Q0) @ drop (Suc i) Q0"
    and di: "distinct (map ident (copies rs (take (Suc i) Q0) @ drop (Suc i) Q0))"
    and bd: "\<forall>sc \<in> set (copies rs (take (Suc i) Q0) @ drop (Suc i) Q0). ident sc < next_ref s1"
    and b0: "\<forall>sc \<in> set Q0. ident sc < next_ref s1"
    and nw: "\<forall>r \<in> set rs. r \<notin> ident ` set Q0"
    and h: "history s1 = h0 @ t @ [Swapped (ident (Q0 ! i)) new]"
    and ir: "inline_runs t = length (filter (runs_at_insertion E) (take i Q0))"
    and hs: "has_src new = has_src (Q0 ! i)"
    and ri: "runs_at_insertion E new = runs_at_insertion E (Q0 ! i)"
    by blast
  let ?sw = "Swapped (ident (Q0 ! i)) new"
  have qe: "querySelectorAll_script (container s2) =
            copies rs (take (Suc i) Q0) @ drop (Suc i) Q0"
    using s2 lv q by (auto simp: execute_container leaves_scripts_def)
  have ne: "next_ref s1 \<le> next_ref s2"
    using s2 lv by (auto simp: execute_container leaves_scripts_def)
  have be: "\<forall>sc \<in> set (copies rs (take (Suc i) Q0) @ drop (Suc i) Q0). ident sc < next_ref s2"
    using bd ne by (meson less_le_trans)
  have b0e: "\<forall>sc \<in> set Q0. ident sc < next_ref s2"
    using b0 ne by (meson less_le_trans)
  from s2 consider
      (ran) "s2 = execute E new s1" "has_src new \<or> runs_at_insertion E new"
    | (failed) "s2 = s1\<lparr> history := history s1 @ [Failed new] \<rparr>" "has_src new"
    | (none) "history s2 = history s1" "\<not> runs_at_insertion E new"
    by blast
  then have "\<exists>u. history s2 = h0 @ (t @ ?sw # u) \<and>
            inline_runs u = (if runs_at_insertion E new then 1 else 0)"
  proof cases
    case ran
    then have "history s2 = h0 @ (t @ ?sw # [Ran new])"
      "inline_runs [Ran new] = (if runs_at_insertion E new then 1 else 0)"
      using h by (auto simp: runs_at_insertion_def)
    then show ?thesis by blast
  next
    case failed
    then have "history s2 = h0 @ (t @ ?sw # [Failed new])"
      "inline_runs [Failed new] = (if runs_at_insertion E new then 1 else 0)"
      using h by (auto simp: runs_at_insertion_def)
    then show ?thesis by blast
  next
    case none
    then have "history s2 = h0 @ (t @ ?sw # [])"
      "inline_runs [] = (if runs_at_insertion E new then 1 else 0)"
      using h by auto
    then show ?thesis by blast
  qed
  then obtain u where he: "history s2 = h0 @ (t @ ?sw # u)"
    and iu: "inline_runs u = (if runs_at_insertion E new then 1 else 0)" by blast
  have ie: "inline_runs (t @ ?sw # u) = length (filter (runs_at_insertion E) (take (Suc i) Q0))"
    using ir iu ri by (simp add: count_take_Suc [OF lt])
  show ?thesis
    unfolding rehydrated_def
    using lp qe di be b0e nw he ie
    by (intro exI [of _ rs] exI [of _ "t @ ?sw # u"]) blast
qed

lemma rehydrated_ready:
  assumes "rehydrated E Q0 h0 i s" "i < length Q0"
    "\<forall>sc \<in> set Q0. parsed E sc \<and> answered E sc"
  shows "ready E (map ident Q0 ! i) (container s)"
proof -
  from assms(1) obtain rs where
    q: "querySelectorAll_script (container s) = copies rs (take i Q0) @ drop i Q0"
    and di: "distinct (map ident (copies rs (take i Q0) @ drop i Q0))"
    unfolding rehydrated_def by blast
  have dr: "drop i Q0 = Q0 ! i # drop (Suc i) Q0"
    using assms(2) by (simp add: Cons_nth_drop_Suc)
  have "getScript (ident (Q0 ! i)) (container s) = Some (Q0 ! i)"
    unfolding getScript_def q dr by (rule find_at) (use di dr in simp)
  moreover have "copyable E (Q0 ! i)" "answered E (Q0 ! i)"
    using assms(2,3) by (simp_all add: parsed_def)
  ultimately show ?thesis
    using assms(2) by (simp add: ready_def)
qed


lemma rehydrated_initial:
  assumes "scripts_wf s"
  shows "rehydrated E (querySelectorAll_script (container s)) (history s) 0 s"
  using assms unfolding rehydrated_def scripts_wf_def
  by (intro exI [of _ "[]"]) simp

lemma rehydrated_final:
  assumes "rehydrated E Q0 h0 (length Q0) s'"
  shows "scripts_wf s' \<and>
         take (length h0) (history s') = h0 \<and>
         inline_runs (drop (length h0) (history s')) = length (filter (runs_at_insertion E) Q0) \<and>
         (\<exists>rs. length rs = length Q0 \<and> (\<forall>r \<in> set rs. r \<notin> ident ` set Q0) \<and>
               querySelectorAll_script (container s') = copies rs Q0)"
proof -
  from assms obtain rs t where lp: "length rs = length Q0"
    and q: "querySelectorAll_script (container s') = copies rs Q0"
    and di: "distinct (map ident (copies rs Q0))"
    and bd: "\<forall>sc \<in> set (copies rs Q0). ident sc < next_ref s'"
    and nw: "\<forall>r \<in> set rs. r \<notin> ident ` set Q0"
    and h: "history s' = h0 @ t"
    and ir: "inline_runs t = length (filter (runs_at_insertion E) Q0)"
    unfolding rehydrated_def by auto
  have "scripts_wf s'"
    using q di bd by (simp add: scripts_wf_def)
  then show ?thesis
    using h ir lp nw q by auto
qed

subsection \<open>The place of the replacement\<close>

lemma firstSome_Some: "firstSome xs = Some y \<Longrightarrow> Some y \<in> set xs"
  by (induction xs rule: firstSome.induct) auto

lemma firstSome_map_option:
  "firstSome (map (map_option g) xs) = map_option g (firstSome xs)"
  by (induction xs rule: firstSome.induct) auto

lemma childNodesOf_replaceChild:
  "childNodesOf p (replaceChild new old c) =
     map_option (map (replaceChild new old)) (childNodesOf p c)"
proof (induction c)
  case (Element r tg as cs)
  have "map (\<lambda>c. childNodesOf p (replaceChild new old c)) cs =
        map (\<lambda>c. map_option (map (replaceChild new old)) (childNodesOf p c)) cs"
    by (rule map_cong [OF refl]) (rule Element.IH)
  also have "\<dots> = map (map_option (map (replaceChild new old))) (map (childNodesOf p) cs)"
    by simp
  finally have "firstSome (map (\<lambda>c. childNodesOf p (replaceChild new old c)) cs) =
        map_option (map (replaceChild new old)) (firstSome (map (childNodesOf p) cs))"
    by (simp only: firstSome_map_option)
  then show ?case
    by (simp add: comp_def)
qed simp_all

lemma replaceChild_absent:
  "old \<notin> ident ` set (scriptsOf c) \<Longrightarrow> replaceChild new old c = c"
proof (induction c)
  case (Element r tg as cs)
  have "map (replaceChild new old) cs = map (\<lambda>c. c) cs"
  proof (rule map_cong [OF refl])
    fix c assume c: "c \<in> set cs"
    with Element.prems have "old \<notin> ident ` set (scriptsOf c)" by auto
    with c show "replaceChild new old c = c" by (rule Element.IH)
  qed
  then show ?case by simp
qed auto

lemma childNodesOf_scripts:
  "childNodesOf p c = Some cs \<Longrightarrow>
     \<exists>xs ys. scriptsOf c = xs @ concat (map scriptsOf cs) @ ys"
proof (induction c)
  case (Element r tg as cs')
  show ?case
  proof (cases "r = p")
    case True
    with Element.prems have "cs = cs'" by simp
    then show ?thesis
      by (intro exI [of _ "[]"]) simp
  next
    case False
    with Element.prems have "firstSome (map (childNodesOf p) cs') = Some cs" by simp
    then obtain c' where c': "c' \<in> set cs'" "childNodesOf p c' = Some cs"
      using firstSome_Some by fastforce
    from Element.IH [OF c'] obtain xs ys where
      s: "scriptsOf c' = xs @ concat (map scriptsOf cs) @ ys" by blast
    from c'(1) obtain us vs where "cs' = us @ c' # vs"
      by (meson split_list)
    then have "scriptsOf (Element r tg as cs') =
               (concat (map scriptsOf us) @ xs) @ concat (map scriptsOf cs) @ (ys @ concat (map scriptsOf vs))"
      using s by simp
    then show ?thesis by blast
  qed
qed simp_all

lemma parentNode_replaceChild:
  assumes "ident new \<notin> ident ` set (scriptsOf c)"
  shows "parentNode (ident new) (replaceChild new old c) = parentNode old c"
  using assms
proof (induction c)
  case (Element r tg as cs)
  have k: "\<And>c. c \<in> set cs \<Longrightarrow>
             script_child (ident new) (replaceChild new old c) = script_child old c"
  proof -
    fix c assume c: "c \<in> set cs"
    show "script_child (ident new) (replaceChild new old c) = script_child old c"
    proof (cases c)
      case (ScriptElement sc)
      with c have "sc \<in> set (scriptsOf (Element r tg as cs))"
        by (auto intro: bexI [of _ c])
      then have "ident sc \<in> ident ` set (scriptsOf (Element r tg as cs))"
        by (rule imageI)
      with Element.prems have "ident sc \<noteq> ident new" by metis
      with ScriptElement show ?thesis by auto
    qed simp_all
  qed
  have m: "map (\<lambda>c. parentNode (ident new) (replaceChild new old c)) cs =
           map (parentNode old) cs"
  proof (rule map_cong [OF refl])
    fix c assume c: "c \<in> set cs"
    with Element.prems have "ident new \<notin> ident ` set (scriptsOf c)" by auto
    with c show "parentNode (ident new) (replaceChild new old c) = parentNode old c"
      by (rule Element.IH)
  qed
  have e: "firstSome (map (\<lambda>c. parentNode (ident new) (replaceChild new old c)) cs) =
           firstSome (map (parentNode old) cs)"
    by (simp only: m)
  have b: "(\<exists>c \<in> set cs. script_child (ident new) (replaceChild new old c)) =
           (\<exists>c \<in> set cs. script_child old c)"
    using k by blast
  show ?case
    by (simp add: comp_def e b)
qed simp_all

lemma getScript_split:
  assumes "getScript r c = Some x"
  shows "\<exists>P R. querySelectorAll_script c = P @ x # R \<and> ident x = r"
proof -
  from assms have "x \<in> set (querySelectorAll_script c)" "ident x = r"
    using getScript_Some by blast+
  then show ?thesis by (meson split_list)
qed

lemma replaceScript_result:
  assumes wf: "scripts_wf s" and g: "getScript (scripts ! i) (container s) = Some old"
    and cp: "copyable E old"
  shows "\<exists>s1. replaceScript E scripts i s = Inr (copyOf (next_ref s) old, s1) \<and>
           container s1 = replaceChild (copyOf (next_ref s) old) (scripts ! i) (container s) \<and>
           getScript (next_ref s) (container s) = None \<and>
           getScript (next_ref s) (container s1) = Some (copyOf (next_ref s) old) \<and>
           getScript (scripts ! i) (container s1) = None \<and>
           querySelectorAll_script (container s1) \<noteq> querySelectorAll_script (container s)"
proof -
  let ?new = "copyOf (next_ref s) old"
  have "\<exists>s1. replaceScript E scripts i s = Inr (?new, s1)"
    using cp by (simp add: replaceScript_eq [OF g])
  then obtain s1 where
    rs: "replaceScript E scripts i s = Inr (?new, s1)" by blast
  from replaceScript_Inr [OF rs]
  have c1: "container s1 = replaceChild ?new (scripts ! i) (container s)" by auto
  from getScript_split [OF g] obtain P R where
    q: "querySelectorAll_script (container s) = P @ old # R" and io: "ident old = scripts ! i"
    by blast
  have di: "distinct (map ident (P @ old # R))"
    and bd: "\<forall>sc \<in> set (P @ old # R). ident sc < next_ref s"
    using wf q by (simp_all add: scripts_wf_def)
  have q1: "querySelectorAll_script (container s1) = P @ ?new # R"
    unfolding c1 qsa_replaceChild q io [symmetric] by (rule subst_at [OF di])
  have "next_ref s \<notin> ident ` set (P @ old # R)"
    using bd by (metis imageE less_irrefl)
  then have g0: "getScript (next_ref s) (container s) = None"
    by (simp add: getScript_None_iff q)
  have "\<forall>sc \<in> set P. ident sc < next_ref s" "\<forall>sc \<in> set R. ident sc < next_ref s"
    using bd by auto
  then have fr: "next_ref s \<notin> ident ` set P" "next_ref s \<notin> ident ` set R"
    by (metis imageE less_irrefl)+
  have d1: "distinct (map ident (P @ ?new # R))"
    using di fr by auto
  have "find (\<lambda>sc. ident sc = ident ?new) (P @ ?new # R) = Some ?new"
    by (rule find_at [OF d1])
  then have g1: "getScript (next_ref s) (container s1) = Some ?new"
    by (simp add: getScript_def q1)
  have "ident old \<notin> ident ` set P" "ident old \<notin> ident ` set R" "ident old \<noteq> next_ref s"
    using di bd by auto
  then have g2: "getScript (scripts ! i) (container s1) = None"
    unfolding getScript_None_iff q1 io [symmetric] by auto
  have "querySelectorAll_script (container s1) \<noteq> querySelectorAll_script (container s)"
  proof
    assume "querySelectorAll_script (container s1) = querySelectorAll_script (container s)"
    then have "getScript (scripts ! i) (container s1) = getScript (scripts ! i) (container s)"
      by (simp add: getScript_def)
    with g g2 show False by simp
  qed
  with rs c1 g0 g1 g2 show ?thesis by blast
qed

lemma parentNode_scriptsOf:
  "parentNode x c \<noteq> None \<Longrightarrow> x \<in> ident ` set (scriptsOf c)"
proof (induction c)
  case (Element r tg as cs)
  show ?case
  proof (cases "\<exists>c \<in> set cs. script_child x c")
    case True
    then obtain c where c: "c \<in> set cs" "script_child x c" by blast
    from c(2) obtain sc where "c = ScriptElement sc" "ident sc = x"
      by (cases c) auto
    with c(1) have "sc \<in> set (scriptsOf (Element r tg as cs))"
      by (auto intro: bexI [of _ c])
    with \<open>ident sc = x\<close> show ?thesis by (metis imageI)
  next
    case False
    with Element.prems have "firstSome (map (parentNode x) cs) \<noteq> None" by simp
    then obtain c where c: "c \<in> set cs" "parentNode x c \<noteq> None"
      by (auto simp: firstSome_None_iff)
    from Element.IH [OF c] have "x \<in> ident ` set (scriptsOf c)" .
    with c(1) show ?thesis by auto
  qed
qed simp_all

lemma parentNode_member:
  "parentNode x c \<noteq> None \<Longrightarrow> x \<in> ident ` set (querySelectorAll_script c)"
proof -
  assume p: "parentNode x c \<noteq> None"
  then obtain r tg as cs where c: "c = Element r tg as cs"
    by (cases c) auto
  from parentNode_scriptsOf [OF p] show ?thesis
    by (simp add: c querySelectorAll_script_def)
qed

subsection \<open>The scripts that ran\<close>

lemma executed_append [simp]: "executed (xs @ ys) = executed xs @ executed ys"
  by (induction xs rule: executed.induct) auto


subsection \<open>The scripts of the examples\<close>


lemma keeps_off_src_inert: "keeps_off_src (browser_of inert)"
  by (simp add: keeps_off_src_def browser_of_def inert_def)



lemma qsa_appendChild:
  "querySelectorAll_script (appendChild (ScriptElement x) c) =
     (case c of Element r tg as cs \<Rightarrow> querySelectorAll_script c @ [x]
      | _ \<Rightarrow> querySelectorAll_script c)"
  by (cases c) (simp_all add: querySelectorAll_script_def)




lemma demo_qsa:
  "querySelectorAll_script (container (page_of demo 5)) =
     [Script 2 [] ''log.push(1)'', Script 3 [(''src'', ''slow.js'')] [],
      Script 4 [] ''log.push(3)'']"
  by (simp add: page_of_def demo_def querySelectorAll_script_def)

lemma demo_wf: "scripts_wf (page_of demo 5)"
  by (simp add: scripts_wf_def page_of_def demo_def querySelectorAll_script_def)



subsection \<open>A script element with a source\<close>

lemma runNext_waits:
  assumes "i < length scripts"
    and "fetching s = []"
    and "getScript (scripts ! i) (container s) = Some old"
    and "has_src old"
    and "copyable E old"
  shows "\<exists>new s1. runNext E scripts i depth s = Inr s1 \<and>
                 fetching s1 = [new] \<and> has_src new \<and>
                 textContent new = textContent old \<and>
                 history s1 = history s @ [Swapped (scripts ! i) new] \<and>
                 waiting_on scripts i new s1 \<and>
                 (\<forall>r. r \<noteq> ident new \<longrightarrow>
                      fire E (Load r) s1 = Inr s1 \<and> fire E (Error r) s1 = Inr s1) \<and>
                 fire E (Load (ident new)) s1 =
                   runNext E scripts (i + 1) 0 (execute E new (s1\<lparr> fetching := [] \<rparr>)) \<and>
                 fire E (Error (ident new)) s1 =
                   runNext E scripts (i + 1) 0
                     (s1\<lparr> fetching := [], history := history s1 @ [Failed new] \<rparr>)"
proof -
  let ?new = "copyOf (next_ref s) old"
  have "\<exists>s1. replaceScript E scripts i s = Inr (?new, s1)"
    using assms(5) by (simp add: replaceScript_eq [OF assms(3)])
  then obtain s1 where
    rs: "replaceScript E scripts i s = Inr (?new, s1)" by blast
  from replaceScript_Inr [OF rs]
  have f1: "fetching s1 = []"
    and h1: "history s1 = history s @ [Swapped (scripts ! i) ?new]"
    and ol: "onload s1 = (if has_src ?new then (next_ref s, RunNext scripts i) # onload s else onload s)"
    and oe: "onerror s1 = (if has_src ?new then (next_ref s, RunNext scripts i) # onerror s else onerror s)"
    using assms(2) by auto
  have src: "has_src ?new" using assms(4) by (rule copyOf_has_src)
  let ?s2 = "s1\<lparr> fetching := fetching s1 @ [?new] \<rparr>"
  have r: "runNext E scripts i depth s = Inr ?s2"
    using assms(1) rs src by (simp add: runNext_step live_after_src inserted_src)
  have w: "waiting_on scripts i ?new ?s2"
    using src f1 ol oe by (simp add: waiting_on_def)
  have f2: "fetching ?s2 = [?new]" using f1 by simp
  have o: "\<forall>r. r \<noteq> ident ?new \<longrightarrow>
             fire E (Load r) ?s2 = Inr ?s2 \<and> fire E (Error r) ?s2 = Inr ?s2"
  proof (intro allI impI)
    fix r assume "r \<noteq> ident ?new"
    then have "ident ?new \<noteq> r" by simp
    from fire_other [OF f2 this, of E]
    show "fire E (Load r) ?s2 = Inr ?s2 \<and> fire E (Error r) ?s2 = Inr ?s2" .
  qed
  have "fire E (Load (ident ?new)) ?s2 =
          runNext E scripts (i + 1) 0 (execute E ?new (?s2\<lparr> fetching := [] \<rparr>))"
    using fire_Load [OF w, of E] by simp
  moreover have "fire E (Error (ident ?new)) ?s2 =
          runNext E scripts (i + 1) 0
            (?s2\<lparr> fetching := [], history := history ?s2 @ [Failed ?new] \<rparr>)"
    using fire_Error [OF w, of E] by simp
  moreover have "history ?s2 = history s @ [Swapped (scripts ! i) ?new]"
    using h1 by simp
  moreover have "textContent ?new = textContent old" by simp
  ultimately show ?thesis
    using r f2 src w o by blast
qed

section \<open>The constructor\<close>

text \<open>
  C8, as the specification states it: an absent or non-string \<open>html\<close> field leaves the
  stored markup empty. The number 42 is a non-string field, and the constructor stores
  it as it is: \<open>42 || ''\<close> is 42.
\<close>

theorem constructor_non_string_counterexample:
  "html (data (constructor
      \<lparr> arg_data = \<lparr> html = Number 42 \<rparr>,
        arg_config = \<lparr> config_placeholder = Undefined \<rparr>,
        arg_api = \<lparr> block = ''cdx-block'', input = ''cdx-input'' \<rparr>,
        arg_readOnly = True \<rparr>)) = Number 42
   \<and> Number 42 \<noteq> Str []"
  by (simp add: constructor_def js_or_def)

text \<open>
  C8, amended: the stored markup is the \<open>html\<close> field itself when that field is truthy
  (a non-empty string is stored unchanged, and so is a truthy value that is not a
  string), and the empty string when the field is absent or holds any falsy value
  (undefined, null, false, 0, NaN or the empty string).
\<close>

theorem constructor_html:
  "html (data (constructor a)) =
     (case html (arg_data a) of
        Undefined \<Rightarrow> Str []
      | Null \<Rightarrow> Str []
      | Boolean b \<Rightarrow> (if b then Boolean True else Str [])
      | Number n \<Rightarrow> (if n = 0 then Str [] else Number n)
      | NaN \<Rightarrow> Str []
      | Str s \<Rightarrow> Str s
      | Object \<Rightarrow> Object)"
  by (cases "html (arg_data a)") (auto simp: constructor_def js_or_def)

section \<open>One replacement\<close>

text \<open>
  C3, as the specification states it: for every script element that a pass processes
  the replacement carries exactly the attributes of the original. The markup parser
  accepts the attribute name \<open>=x\<close>, and \<open>setAttribute\<close> raises on it: no replacement
  is made, and the call of \<^verbatim>\<open>runNext\<close> ends with an \<open>InvalidCharacterError\<close>. On a
  script element inside \<open>svg\<close> the parser spells the attribute \<open>viewBox\<close> so, and the
  replacement, an HTML element, carries \<open>viewbox\<close>.
\<close>

theorem replaceScript_attributes_counterexample:
  "replaceScript (browser_of inert) [1] 0
     (page_of (Element 0 ''div'' [] [ScriptElement (Script 1 [(''=x'', ''1'')] ''f()'')]) 2)
   = Inl (InvalidCharacterError,
          page_of (Element 0 ''div'' [] [ScriptElement (Script 1 [(''=x'', ''1'')] ''f()'')]) 3)
   \<and> replaceScript (browser_of inert) [1] 0
       (page_of (Element 0 ''div'' []
          [ScriptElement (Script 1 [(''viewBox'', ''0 0 8 8'')] ''f()'')]) 2)
     = Inr (Script 2 [(''viewbox'', ''0 0 8 8'')] ''f()'',
            \<lparr> container = Element 0 ''div'' []
                [ScriptElement (Script 2 [(''viewbox'', ''0 0 8 8'')] ''f()'')],
              next_ref = 3, onload = [], onerror = [], fetching = [], deferred = [],
              history = [Swapped 1 (Script 2 [(''viewbox'', ''0 0 8 8'')] ''f()'')],
              timers = [], listeners = [] \<rparr>)
   \<and> [(''viewbox'', ''0 0 8 8'')] \<noteq> [(''viewBox'', ''0 0 8 8'')]"
  by code_simp

text \<open>
  C3, amended: \<^verbatim>\<open>runNext\<close> comes to a script element \<open>old\<close> of the tree. When
  \<open>setAttribute\<close> accepts every attribute name of \<open>old\<close>, the replacement succeeds, the
  element that stands in the tree afterwards under the fresh reference is the
  replacement, the original is gone from the tree, the text content of the
  replacement is that of the original, and its attributes are those of the original
  set in turn, each under its name in lower case; they are exactly the attributes of
  the original (the same names with the same values, in the same order, nothing added
  and nothing left out) when the names of the original are in lower case and
  distinct, as the parser leaves them on an HTML script element. When \<open>setAttribute\<close>
  does not accept a name, the call raises an \<open>InvalidCharacterError\<close> and the tree is
  as it was.
\<close>

theorem replaceScript_copies_attributes_and_text:
  assumes "scripts_wf s"
    and "getScript (scripts ! i) (container s) = Some old"
  shows "if copyable E old
         then (\<exists>new s1. replaceScript E scripts i s = Inr (new, s1) \<and>
                 getScript (next_ref s) (container s1) = Some new \<and>
                 getScript (scripts ! i) (container s1) = None \<and>
                 textContent new = textContent old \<and>
                 attributes new = copied (attributes old) \<and>
                 fst ` set (attributes new) = lower ` fst ` set (attributes old) \<and>
                 (list_all (\<lambda>a. lower (fst a) = fst a) (attributes old) \<and>
                  distinct (map fst (attributes old)) \<longrightarrow>
                    attributes new = attributes old))
         else replaceScript E scripts i s =
                Inl (InvalidCharacterError, s\<lparr> next_ref := Suc (next_ref s) \<rparr>)"
proof (cases "copyable E old")
  case True
  from replaceScript_result [OF assms True] obtain s1 where
    "replaceScript E scripts i s = Inr (copyOf (next_ref s) old, s1)"
    "getScript (next_ref s) (container s1) = Some (copyOf (next_ref s) old)"
    "getScript (scripts ! i) (container s1) = None"
    by blast
  moreover have "list_all (\<lambda>a. lower (fst a) = fst a) (attributes old) \<and>
                 distinct (map fst (attributes old)) \<longrightarrow>
                 attributes (copyOf (next_ref s) old) = attributes old"
    by (simp add: copied_parsed)
  moreover have "textContent (copyOf (next_ref s) old) = textContent old"
    "attributes (copyOf (next_ref s) old) = copied (attributes old)"
    "fst ` set (attributes (copyOf (next_ref s) old)) = lower ` fst ` set (attributes old)"
    by (simp_all add: copied_names)
  ultimately show ?thesis
    using True by (simp del: copyOf_attributes)
next
  case False
  then show ?thesis
    by (simp add: replaceScript_eq [OF assms(2)])
qed

lemma demo_copyable:
  "copyable (browser_of B) (Script 1 [(''data-x'', ''1''), (''data-y'', ''2'')] ''f()'')"
  by (simp add: copyable_def browser_of_def valid_attribute_name_def is_space_def)

theorem replaceScript_copies_attributes_and_text_witness:
  "scripts_wf (page_of (Element 0 ''div'' []
       [ScriptElement (Script 1 [(''data-x'', ''1''), (''data-y'', ''2'')] ''f()'')]) 2)
   \<and> copyable (browser_of inert) (Script 1 [(''data-x'', ''1''), (''data-y'', ''2'')] ''f()'')
   \<and> (\<exists>s1. replaceScript (browser_of inert) [1] 0
              (page_of (Element 0 ''div'' []
                 [ScriptElement (Script 1 [(''data-x'', ''1''), (''data-y'', ''2'')] ''f()'')]) 2)
            = Inr (Script 2 [(''data-x'', ''1''), (''data-y'', ''2'')] ''f()'', s1)
          \<and> container s1 = Element 0 ''div'' []
               [ScriptElement (Script 2 [(''data-x'', ''1''), (''data-y'', ''2'')] ''f()'')])"
proof -
  let ?old = "Script 1 [(''data-x'', ''1''), (''data-y'', ''2'')] ''f()''"
  let ?s = "page_of (Element 0 ''div'' [] [ScriptElement ?old]) 2"
  have wf: "scripts_wf ?s"
    by (simp add: scripts_wf_def page_of_def querySelectorAll_script_def)
  have g: "getScript ([1] ! 0) (container ?s) = Some ?old"
    by (simp add: getScript_def page_of_def querySelectorAll_script_def)
  have l: "list_all (\<lambda>a. lower (fst a) = fst a) (attributes ?old) \<and>
           distinct (map fst (attributes ?old))"
    by (simp add: lower_def ascii_lower_def)
  from replaceScript_copies_attributes_and_text [OF wf g, of "browser_of inert"] demo_copyable l
  obtain new s1 where r: "replaceScript (browser_of inert) [1] 0 ?s = Inr (new, s1)"
    and a: "attributes new = attributes ?old" "textContent new = textContent ?old"
    by auto
  from replaceScript_Inr [OF r]
  have "ident new = 2" and c: "container s1 = replaceChild new 1 (container ?s)"
    by (auto simp: page_of_def)
  with a have n: "new = Script 2 [(''data-x'', ''1''), (''data-y'', ''2'')] ''f()''"
    by (cases new) simp
  from c n have "container s1 = Element 0 ''div'' []
               [ScriptElement (Script 2 [(''data-x'', ''1''), (''data-y'', ''2'')] ''f()'')]"
    by (simp add: page_of_def)
  with wf r n demo_copyable show ?thesis by blast
qed

text \<open>
  C4: \<^verbatim>\<open>runNext\<close> comes to the script element \<open>old\<close>, a child of the element \<open>p\<close>
  that stands between the siblings \<open>xs\<close> and \<open>ys\<close>, and \<open>setAttribute\<close> accepts its
  attribute names. Then the replacement is made; it is a new element (its reference is
  the fresh one, which no script element of the tree had before) built from \<open>old\<close>;
  it is a child of the same element \<open>p\<close> and stands between the same siblings \<open>xs\<close>
  and \<open>ys\<close>; and the original is no longer in the tree: it has no parent, and the
  script elements of the tree are not what they were.
\<close>

theorem replaceScript_keeps_position:
  assumes "scripts_wf s"
    and "parentNode (scripts ! i) (container s) = Some p"
    and "childNodesOf p (container s) = Some (xs @ ScriptElement old # ys)"
    and "ident old = scripts ! i"
    and "copyable E old"
  shows "\<exists>new s1. replaceScript E scripts i s = Inr (new, s1) \<and>
           new = copyOf (next_ref s) old \<and>
           ident new = next_ref s \<and> ident new \<noteq> ident old \<and>
           getScript (ident new) (container s) = None \<and>
           getScript (ident new) (container s1) = Some new \<and>
           parentNode (ident new) (container s1) = Some p \<and>
           childNodesOf p (container s1) = Some (xs @ ScriptElement new # ys) \<and>
           getScript (ident old) (container s1) = None \<and>
           parentNode (ident old) (container s1) = None \<and>
           querySelectorAll_script (container s1) \<noteq> querySelectorAll_script (container s) \<and>
           history s1 = history s @ [Swapped (ident old) new]"
proof -
  let ?c = "container s"
  let ?cs = "xs @ ScriptElement old # ys"
  obtain r tg as cs where el: "?c = Element r tg as cs"
    using assms(3) by (cases ?c) auto
  then have q: "querySelectorAll_script ?c = scriptsOf ?c"
    by (simp add: querySelectorAll_script_def)
  from childNodesOf_scripts [OF assms(3)] obtain us vs where
    sp: "scriptsOf ?c = us @ concat (map scriptsOf ?cs) @ vs" by blast
  let ?P = "us @ concat (map scriptsOf xs)"
  let ?R = "concat (map scriptsOf ys) @ vs"
  have sp': "querySelectorAll_script ?c = ?P @ old # ?R"
    using sp q by simp
  have di: "distinct (map ident (?P @ old # ?R))"
    and bd: "\<forall>sc \<in> set (?P @ old # ?R). ident sc < next_ref s"
    using assms(1) sp' by (simp_all add: scripts_wf_def)
  have g: "getScript (scripts ! i) ?c = Some old"
    unfolding getScript_def sp' assms(4) [symmetric] by (rule find_at [OF di])
  let ?new = "copyOf (next_ref s) old"
  from replaceScript_result [OF assms(1) g assms(5)] obtain s1 where
    rs: "replaceScript E scripts i s = Inr (?new, s1)"
    and c1: "container s1 = replaceChild ?new (scripts ! i) ?c"
    and g0: "getScript (next_ref s) ?c = None"
    and g1: "getScript (next_ref s) (container s1) = Some ?new"
    and g2: "getScript (scripts ! i) (container s1) = None"
    and ch: "querySelectorAll_script (container s1) \<noteq> querySelectorAll_script ?c"
    by blast
  from replaceScript_Inr [OF rs]
  have h1: "history s1 = history s @ [Swapped (scripts ! i) ?new]" by auto
  have ne: "ident old < next_ref s" using bd by simp
  have "next_ref s \<notin> ident ` set (?P @ old # ?R)"
    using bd by (metis imageE less_irrefl)
  then have fresh: "ident ?new \<notin> ident ` set (scriptsOf ?c)"
    using sp' q by simp
  have pn: "parentNode (ident ?new) (container s1) = Some p"
    unfolding c1 using parentNode_replaceChild [OF fresh] assms(2) by simp
  have po: "parentNode (ident old) (container s1) = None"
  proof (rule ccontr)
    assume "parentNode (ident old) (container s1) \<noteq> None"
    then have "ident old \<in> ident ` set (querySelectorAll_script (container s1))"
      by (rule parentNode_member)
    with g2 show False
      by (simp add: getScript_None_iff assms(4))
  qed
  have ab: "\<And>c. c \<in> set xs \<union> set ys \<Longrightarrow> replaceChild ?new (scripts ! i) c = c"
  proof (rule replaceChild_absent)
    fix c assume c: "c \<in> set xs \<union> set ys"
    have "ident old \<notin> ident ` set (concat (map scriptsOf xs))"
      and "ident old \<notin> ident ` set (concat (map scriptsOf ys))"
      using di by auto
    with c show "scripts ! i \<notin> ident ` set (scriptsOf c)"
      unfolding assms(4) [symmetric] by auto
  qed
  then have "map (replaceChild ?new (scripts ! i)) xs = xs"
    and "map (replaceChild ?new (scripts ! i)) ys = ys"
    by (simp_all add: map_idI)
  then have "map (replaceChild ?new (scripts ! i)) ?cs = xs @ ScriptElement ?new # ys"
    using assms(4) by simp
  then have "childNodesOf p (container s1) = Some (xs @ ScriptElement ?new # ys)"
    unfolding c1 childNodesOf_replaceChild assms(3) by simp
  with rs pn po g0 g1 g2 ch h1 ne show ?thesis
    unfolding assms(4) [symmetric] by (intro exI [of _ ?new] exI [of _ s1]) simp
qed

theorem replaceScript_keeps_position_witness:
  "scripts_wf (page_of demo 5)
   \<and> parentNode 2 demo = Some 0
   \<and> childNodesOf 0 demo = Some
        ([Element 1 ''p'' [] [Text ''hi'']]
         @ ScriptElement (Script 2 [] ''log.push(1)'')
         # [ScriptElement (Script 3 [(''src'', ''slow.js'')] []),
            ScriptElement (Script 4 [] ''log.push(3)'')])
   \<and> copyable (browser_of inert) (Script 2 [] ''log.push(1)'')
   \<and> (\<exists>s1. replaceScript (browser_of inert) [2, 3, 4] 0 (page_of demo 5) =
              Inr (Script 5 [] ''log.push(1)'', s1)
         \<and> getScript 5 demo = None
         \<and> parentNode 5 (container s1) = Some 0
         \<and> childNodesOf 0 (container s1) = Some
             ([Element 1 ''p'' [] [Text ''hi'']]
              @ ScriptElement (Script 5 [] ''log.push(1)'')
              # [ScriptElement (Script 3 [(''src'', ''slow.js'')] []),
                 ScriptElement (Script 4 [] ''log.push(3)'')])
         \<and> parentNode 2 (container s1) = None)"
proof -
  let ?old = "Script 2 [] ''log.push(1)''"
  have wf: "scripts_wf (page_of demo 5)"
    by (simp add: scripts_wf_def page_of_def demo_def querySelectorAll_script_def)
  have p: "parentNode ([2, 3, 4] ! 0) (container (page_of demo 5)) = Some 0"
    by (simp add: page_of_def demo_def)
  have c: "childNodesOf 0 (container (page_of demo 5)) = Some
        ([Element 1 ''p'' [] [Text ''hi'']]
         @ ScriptElement ?old
         # [ScriptElement (Script 3 [(''src'', ''slow.js'')] []),
            ScriptElement (Script 4 [] ''log.push(3)'')])"
    by (simp add: page_of_def demo_def)
  have i: "ident ?old = [2, 3, 4] ! 0"
    by simp
  have cp: "copyable (browser_of inert) ?old"
    by (simp add: copyable_def)
  have n: "copyOf (next_ref (page_of demo 5)) ?old = Script 5 [] ''log.push(1)''"
    by (simp add: copyOf_def copied_def page_of_def)
  from replaceScript_keeps_position [OF wf p c i cp] wf p c cp show ?thesis
    unfolding n by (auto simp: page_of_def)
qed

section \<open>One step of a pass\<close>

text \<open>
  C5: when \<^verbatim>\<open>runNext\<close> comes to a script element that has a \<open>src\<close> attribute, with
  or without inline text, and \<open>setAttribute\<close> accepts its attribute names, it returns
  with the replacement being fetched: the text of the original is on the replacement,
  nothing after the replacement of this one is in the history, both handlers of the
  replacement hold the continuation, an event for any other element changes nothing,
  and the load event and the error event of the replacement each call \<^verbatim>\<open>runNext\<close>
  for the next index. When \<open>setAttribute\<close> does not accept a name, the call raises an
  \<open>InvalidCharacterError\<close> before anything is replaced.
\<close>

theorem script_with_src_and_text_waits:
  assumes "i < length scripts"
    and "fetching s = []"
    and "getScript (scripts ! i) (container s) = Some old"
    and "has_src old"
  shows "if copyable E old
         then (\<exists>new s1. runNext E scripts i depth s = Inr s1 \<and>
                 fetching s1 = [new] \<and> has_src new \<and>
                 textContent new = textContent old \<and>
                 history s1 = history s @ [Swapped (scripts ! i) new] \<and>
                 waiting_on scripts i new s1 \<and>
                 (\<forall>r. r \<noteq> ident new \<longrightarrow>
                      fire E (Load r) s1 = Inr s1 \<and> fire E (Error r) s1 = Inr s1) \<and>
                 fire E (Load (ident new)) s1 =
                   runNext E scripts (i + 1) 0 (execute E new (s1\<lparr> fetching := [] \<rparr>)) \<and>
                 fire E (Error (ident new)) s1 =
                   runNext E scripts (i + 1) 0
                     (s1\<lparr> fetching := [], history := history s1 @ [Failed new] \<rparr>))
         else runNext E scripts i depth s =
                Inl (InvalidCharacterError, s\<lparr> next_ref := Suc (next_ref s) \<rparr>)"
proof (cases "copyable E old")
  case False
  then show ?thesis
    using assms(1) by (simp add: runNext_step replaceScript_eq [OF assms(3)])
next
  case True
  from runNext_waits [OF assms True, of depth] True show ?thesis
    by simp
qed

lemma src_and_text_run:
  "runNext (browser_of inert) [9] 0 0
     (page_of (Element 0 ''div'' []
        [ScriptElement (Script 9 [(''src'', ''a.js''), (''defer'', [])] ''ignored'')]) 10) =
   Inr \<lparr> container = Element 0 ''div'' []
           [ScriptElement (Script 10 [(''src'', ''a.js''), (''defer'', [])] ''ignored'')],
         next_ref = 11, onload = [(10, RunNext [9] 0)], onerror = [(10, RunNext [9] 0)],
         fetching = [Script 10 [(''src'', ''a.js''), (''defer'', [])] ''ignored''],
         deferred = [],
         history = [Swapped 9 (Script 10 [(''src'', ''a.js''), (''defer'', [])] ''ignored'')],
         timers = [], listeners = [] \<rparr>"
  by code_simp

theorem script_with_src_and_text_waits_witness:
  "has_src (Script 9 [(''src'', ''a.js''), (''defer'', [])] ''ignored'')
   \<and> copyable (browser_of inert) (Script 9 [(''src'', ''a.js''), (''defer'', [])] ''ignored'')
   \<and> (\<exists>s1. runNext (browser_of inert) [9] 0 0
              (page_of (Element 0 ''div'' []
                 [ScriptElement (Script 9 [(''src'', ''a.js''), (''defer'', [])] ''ignored'')]) 10)
            = Inr s1
          \<and> fetching s1 = [Script 10 [(''src'', ''a.js''), (''defer'', [])] ''ignored'']
          \<and> history s1 =
              [Swapped 9 (Script 10 [(''src'', ''a.js''), (''defer'', [])] ''ignored'')])"
proof -
  let ?old = "Script 9 [(''src'', ''a.js''), (''defer'', [])] ''ignored''"
  let ?s = "page_of (Element 0 ''div'' [] [ScriptElement ?old]) 10"
  have i: "0 < length [9 :: nat]" by simp
  have f: "fetching ?s = []" by (simp add: page_of_def)
  have g: "getScript ([9] ! 0) (container ?s) = Some ?old"
    by (simp add: getScript_def page_of_def querySelectorAll_script_def)
  have h: "has_src ?old" by (simp add: has_src_def)
  have cp: "copyable (browser_of inert) ?old"
    by (simp add: copyable_def browser_of_def valid_attribute_name_def is_space_def)
  from script_with_src_and_text_waits [OF i f g h, of "browser_of inert" 0] cp
  obtain new s1 where r: "runNext (browser_of inert) [9] 0 0 ?s = Inr s1" and "fetching s1 = [new]"
    by auto
  from r [unfolded src_and_text_run] have "fetching s1 = [Script 10 [(''src'', ''a.js''), (''defer'', [])] ''ignored'']"
    and "history s1 =
           [Swapped 9 (Script 10 [(''src'', ''a.js''), (''defer'', [])] ''ignored'')]"
    by auto
  with h cp r show ?thesis
    by blast
qed

section \<open>A pass\<close>

text \<open>
  C6: on a container without script elements \<^verbatim>\<open>_executeScripts\<close> returns with the
  page as it was: the tree, the history (no script has run), the handlers, the fetches
  and the timers are unchanged.
\<close>

theorem executeScripts_without_scripts:
  assumes "querySelectorAll_script (container s) = []"
  shows "executeScripts E s = Inr s"
  using assms by (simp add: executeScripts_def runNext_done)

theorem executeScripts_without_scripts_witness:
  "querySelectorAll_script (Element 0 ''div'' [] [Element 1 ''p'' [] [Text ''hi'']]) = []
   \<and> executeScripts (browser_of adds_script)
         (page_of (Element 0 ''div'' [] [Element 1 ''p'' [] [Text ''hi'']]) 2)
       = Inr (page_of (Element 0 ''div'' [] [Element 1 ''p'' [] [Text ''hi'']]) 2)"
proof -
  have q: "querySelectorAll_script
             (container (page_of (Element 0 ''div'' [] [Element 1 ''p'' [] [Text ''hi'']]) 2)) = []"
    by (simp add: querySelectorAll_script_def page_of_def)
  from executeScripts_without_scripts [OF q, of "browser_of adds_script"] q show ?thesis
    by (simp add: page_of_def)
qed
















lemma demo_adds_settle:
  "settle (browser_of adds_script) [True, True, True]
     (executeScripts (browser_of adds_script) (page_of demo 5)) =
   Inr \<lparr> container = Element 0 ''div'' []
           [Element 1 ''p'' [] [Text ''hi''],
            ScriptElement (Script 5 [] ''log.push(1)''),
            ScriptElement (Script 7 [(''src'', ''slow.js'')] []),
            ScriptElement (Script 9 [] ''log.push(3)''),
            ScriptElement (Script 6 [] ''late()''),
            ScriptElement (Script 8 [] ''late()''),
            ScriptElement (Script 10 [] ''late()'')],
         next_ref = 11, onload = [(7, RunNext [2, 3, 4] 1)],
         onerror = [(7, RunNext [2, 3, 4] 1)], fetching = [], deferred = [],
         history =
           [Swapped 2 (Script 5 [] ''log.push(1)''),
            Ran (Script 5 [] ''log.push(1)''),
            Swapped 3 (Script 7 [(''src'', ''slow.js'')] []),
            Ran (Script 7 [(''src'', ''slow.js'')] []),
            Swapped 4 (Script 9 [] ''log.push(3)''),
            Ran (Script 9 [] ''log.push(3)'')],
         timers = [], listeners = [] \<rparr>"
  by code_simp





lemma demo_parsed:
  "list_all (\<lambda>sc. parsed (browser_of inert) sc \<and> answered (browser_of inert) sc)
     (querySelectorAll_script (container (page_of demo 5)))"
  by code_simp


lemma demo_fail:
  "settle (browser_of inert) [False, False, False]
     (executeScripts (browser_of inert) (page_of demo 5)) =
   Inr \<lparr> container = Element 0 ''div'' []
           [Element 1 ''p'' [] [Text ''hi''],
            ScriptElement (Script 5 [] ''log.push(1)''),
            ScriptElement (Script 6 [(''src'', ''slow.js'')] []),
            ScriptElement (Script 7 [] ''log.push(3)'')],
         next_ref = 8, onload = [(6, RunNext [2, 3, 4] 1)],
         onerror = [(6, RunNext [2, 3, 4] 1)], fetching = [], deferred = [],
         history =
           [Swapped 2 (Script 5 [] ''log.push(1)''),
            Ran (Script 5 [] ''log.push(1)''),
            Swapped 3 (Script 6 [(''src'', ''slow.js'')] []),
            Failed (Script 6 [(''src'', ''slow.js'')] []),
            Swapped 4 (Script 7 [] ''log.push(3)''),
            Ran (Script 7 [] ''log.push(3)'')],
         timers = [], listeners = [] \<rparr>"
  by code_simp



section \<open>The render operation\<close>

text \<open>
  C9: with valid class names, \<^verbatim>\<open>render\<close> returns a wrapper whose first child is the
  text area. When the read-only flag is true the wrapper has one more child, a
  \<open>div\<close> whose children are what the parser builds from the stored markup, and two
  timers are added, each of 100 milliseconds: first the call of
  \<^verbatim>\<open>_executeScripts\<close> on that \<open>div\<close>, then the resize. When the flag is false
  the text area is the only child and the one timer added is the resize, so that no
  call of \<^verbatim>\<open>_executeScripts\<close> is scheduled; the one listener added is the input
  listener of the text area. In both cases no script has run and none is being
  fetched when \<^verbatim>\<open>render\<close> returns: the history, the fetches, the handlers and the
  tree of the page are as before.
\<close>

theorem render_schedules_executeScripts_when_readOnly:
  assumes "list_all valid_token
             [baseClass (CSS this), css_names.wrapper (CSS this),
              css_textarea (CSS this), css_input (CSS this)]"
  shows "\<exists>w ta this' s'.
           render parse this s = Inr (w, this', s') \<and>
           node_ref ta = Some (Suc (next_ref s)) \<and>
           textarea this' = Some (Suc (next_ref s)) \<and>
           container s' = container s \<and> history s' = history s \<and>
           fetching s' = fetching s \<and> onload s' = onload s \<and> onerror s' = onerror s \<and>
           (if readOnly this
            then childNodes w =
                   [ta, Element (Suc (Suc (next_ref s))) ''div'' []
                          (fst (parse (Suc (Suc (Suc (next_ref s))))
                                  (legacyNullString (html (data this)))))] \<and>
                 timers s' = timers s @
                   [(CallExecuteScripts (Suc (Suc (next_ref s))), 100), (CallResize, 100)] \<and>
                 listeners s' = listeners s
            else childNodes w = [ta] \<and>
                 timers s' = timers s @ [(CallResize, 100)] \<and>
                 listeners s' = listeners s @ [(Suc (next_ref s), ''input'', CallOnInput)])"
proof (cases "readOnly this")
  case True
  obtain cs n where p: "parse (Suc (Suc (Suc (next_ref s)))) (legacyNullString (html (data this))) = (cs, n)"
    by (cases "parse (Suc (Suc (Suc (next_ref s)))) (legacyNullString (html (data this)))")
  show ?thesis
    using assms True p
    by (simp add: render_def Let_def createElement_def classList_add_def set_innerHTML_def
          setTimeout_def el_set_textContent_def)
next
  case False
  show ?thesis
    using assms False
    by (simp add: render_def Let_def createElement_def classList_add_def
          setTimeout_def addEventListener_def el_set_textContent_def)
qed

lemma demo_render:
  "render demo_parser
     (constructor
        \<lparr> arg_data = \<lparr> html = Str ''<p>hi</p><script>log.push(1)</script>'' \<rparr>,
          arg_config = \<lparr> config_placeholder = Undefined \<rparr>,
          arg_api = \<lparr> block = ''cdx-block'', input = ''cdx-input'' \<rparr>,
          arg_readOnly = True \<rparr>)
     (page_of (Text []) 0) =
   Inr (Element 0 ''div'' [(''class'', ''cdx-block ce-rawtool'')]
          [Element 1 ''textarea''
             [(''class'', ''ce-rawtool__textarea cdx-input''),
              (''placeholder'', ''Enter HTML code''), (''disabled'', []), (''hidden'', [])]
             [Text ''<p>hi</p><script>log.push(1)</script>''],
           Element 2 ''div'' []
             [Element 3 ''p'' [] [Text ''hi''], ScriptElement (Script 4 [] ''log.push(1)'')]],
        \<lparr> api = \<lparr> block = ''cdx-block'', input = ''cdx-input'' \<rparr>,
          readOnly = True, placeholder = Str ''Enter HTML code'',
          CSS = \<lparr> baseClass = ''cdx-block'', css_input = ''cdx-input'',
                  wrapper = ''ce-rawtool'', css_textarea = ''ce-rawtool__textarea'' \<rparr>,
          data = \<lparr> html = Str ''<p>hi</p><script>log.push(1)</script>'' \<rparr>,
          textarea = Some 1, resizeDebounce = None \<rparr>,
        \<lparr> container = Text [], next_ref = 5, onload = [], onerror = [], fetching = [],
          deferred = [], history = [], timers = [(CallExecuteScripts 2, 100), (CallResize, 100)],
          listeners = [] \<rparr>)"
  by code_simp

theorem render_schedules_executeScripts_when_readOnly_witness:
  "\<exists>w this' s'.
     render demo_parser
       (constructor
          \<lparr> arg_data = \<lparr> html = Str ''<p>hi</p><script>log.push(1)</script>'' \<rparr>,
            arg_config = \<lparr> config_placeholder = Undefined \<rparr>,
            arg_api = \<lparr> block = ''cdx-block'', input = ''cdx-input'' \<rparr>,
            arg_readOnly = True \<rparr>)
       (page_of (Text []) 0) = Inr (w, this', s')
     \<and> childNodes w ! 1 =
         Element 2 ''div'' []
           [Element 3 ''p'' [] [Text ''hi''], ScriptElement (Script 4 [] ''log.push(1)'')]
     \<and> timers s' = [(CallExecuteScripts 2, 100), (CallResize, 100)]
     \<and> history s' = []"
proof -
  let ?tool = "constructor
          \<lparr> arg_data = \<lparr> html = Str ''<p>hi</p><script>log.push(1)</script>'' \<rparr>,
            arg_config = \<lparr> config_placeholder = Undefined \<rparr>,
            arg_api = \<lparr> block = ''cdx-block'', input = ''cdx-input'' \<rparr>,
            arg_readOnly = True \<rparr>"
  have v: "list_all valid_token
             [baseClass (CSS ?tool), css_names.wrapper (CSS ?tool),
              css_textarea (CSS ?tool), css_input (CSS ?tool)]"
    by (simp add: constructor_def valid_token_def is_space_def)
  have r: "readOnly ?tool" by (simp add: constructor_def)
  from render_schedules_executeScripts_when_readOnly [OF v, of demo_parser "page_of (Text []) 0"]
  obtain w this' s' where
    a: "render demo_parser ?tool (page_of (Text []) 0) = Inr (w, this', s')"
    by blast
  from a [unfolded demo_render] have
    "childNodes w ! 1 =
         Element 2 ''div'' []
           [Element 3 ''p'' [] [Text ''hi''], ScriptElement (Script 4 [] ''log.push(1)'')]"
    "timers s' = [(CallExecuteScripts 2, 100), (CallResize, 100)]"
    "history s' = []"
    by auto
  with a show ?thesis by blast
qed

section \<open>The tree after a pass\<close>

lemma anonymous_replaceChild:
  assumes "\<forall>sc \<in> set (scriptsOf c). ident sc = old \<longrightarrow>
             attributes sc = attributes new \<and> textContent sc = textContent new"
  shows "anonymous (replaceChild new old c) = anonymous c"
  using assms
proof (induction c)
  case (Element r tg as cs)
  have "map (\<lambda>c. anonymous (replaceChild new old c)) cs = map anonymous cs"
  proof (rule map_cong [OF refl])
    fix c assume c: "c \<in> set cs"
    with Element.prems have "\<forall>sc \<in> set (scriptsOf c). ident sc = old \<longrightarrow>
             attributes sc = attributes new \<and> textContent sc = textContent new"
      by auto
    with c show "anonymous (replaceChild new old c) = anonymous c"
      by (rule Element.IH)
  qed
  then show ?case by (simp add: comp_def)
qed auto

lemma leaves_tree_scripts: "leaves_tree E \<Longrightarrow> leaves_scripts E"
  by (simp add: leaves_tree_def leaves_scripts_def)

lemma unchanged_swap:
  assumes J: "unchanged E Q0 h0 c0 i s" and lt: "i < length Q0"
    and ps: "\<forall>sc \<in> set Q0. parsed E sc"
    and rs: "replaceScript E (map ident Q0) i s = Inr (new, s1)"
  shows "anonymous (container s1) = anonymous c0"
proof -
  from J have R: "rehydrated E Q0 h0 i s" and A: "anonymous (container s) = anonymous c0"
    by (simp_all add: unchanged_def)
  let ?x = "Q0 ! i"
  from rehydrated_swap [OF R lt ps rs]
  have c1: "container s1 = replaceChild new (ident ?x) (container s)"
    and new: "new = copyOf (next_ref s) ?x"
    and g: "getScript (ident ?x) (container s) = Some ?x"
    by blast+
  from R have di: "distinct (map ident (querySelectorAll_script (container s)))"
    unfolding rehydrated_def by auto
  from g have m: "?x \<in> set (querySelectorAll_script (container s))"
    using getScript_Some by blast
  then obtain r tg as cs where el: "container s = Element r tg as cs"
    by (cases "container s") (auto simp: querySelectorAll_script_def)
  then have q: "scriptsOf (container s) = querySelectorAll_script (container s)"
    by (simp add: querySelectorAll_script_def)
  have inj: "inj_on ident (set (querySelectorAll_script (container s)))"
    using di by (simp add: distinct_map)
  have px: "parsed E ?x" using ps lt by simp
  have at: "attributes new = attributes ?x" "textContent new = textContent ?x"
    by (simp_all add: new copied_of_parsed [OF px])
  have "\<forall>sc \<in> set (scriptsOf (container s)). ident sc = ident ?x \<longrightarrow>
          attributes sc = attributes new \<and> textContent sc = textContent new"
  proof (intro ballI impI)
    fix sc assume "sc \<in> set (scriptsOf (container s))" "ident sc = ident ?x"
    then have "sc = ?x"
      using inj m q by (auto dest: inj_onD)
    then show "attributes sc = attributes new \<and> textContent sc = textContent new"
      using at by simp
  qed
  from anonymous_replaceChild [OF this] show ?thesis
    using c1 A by simp
qed

text \<open>
  A complete pass, by scripts that leave the tree alone and give themselves no source,
  over script elements that are as the parser leaves them and that, when they have a
  source, the browser takes for scripts: every script element of
  the container has been replaced by a new element, and nothing else in the tree
  has changed; the new elements have the attributes and the text of the originals
  and stand in their places.
\<close>

theorem pass_changes_identity_only:
  assumes "scripts_wf s" and "fetching s = []"
    and "leaves_tree E" and "keeps_off_src E"
    and "\<forall>sc \<in> set (querySelectorAll_script (container s)). parsed E sc \<and> answered E sc"
    and "length (querySelectorAll_script (container s)) \<le> length oks"
    and "length (querySelectorAll_script (container s)) < stack E"
  shows "\<exists>s' rs. settle E oks (executeScripts E s) = Inr s' \<and> fetching s' = [] \<and>
           anonymous (container s') = anonymous (container s) \<and>
           length rs = length (querySelectorAll_script (container s)) \<and>
           (\<forall>r \<in> set rs. r \<notin> ident ` set (querySelectorAll_script (container s))) \<and>
           map ident (querySelectorAll_script (container s')) = rs \<and>
           map attributes (querySelectorAll_script (container s')) =
             map attributes (querySelectorAll_script (container s)) \<and>
           map textContent (querySelectorAll_script (container s')) =
             map textContent (querySelectorAll_script (container s))"
proof -
  let ?Q0 = "querySelectorAll_script (container s)"
  have lv: "leaves_scripts E" by (rule leaves_tree_scripts [OF assms(3)])
  from assms(5) have ps: "\<forall>sc \<in> set ?Q0. parsed E sc" by blast
  have J: "unchanged E ?Q0 (history s) (container s) 0 s"
    using rehydrated_initial [OF assms(1)] by (simp add: unchanged_def)
  have "\<exists>s'. settle E oks (runNext E (map ident ?Q0) 0 0 s) = Inr s' \<and> fetching s' = [] \<and>
              unchanged E ?Q0 (history s) (container s) (length (map ident ?Q0)) s'"
  proof (rule pass_rule [where I = "unchanged E ?Q0 (history s) (container s)",
        OF _ _ _ _ assms(4) J assms(2)])
    fix i s0 new s1
    assume a: "unchanged E ?Q0 (history s) (container s) i s0" "i < length (map ident ?Q0)"
      "replaceScript E (map ident ?Q0) i s0 = Inr (new, s1)"
    then have lt: "i < length ?Q0" by simp
    from a(1) have R: "rehydrated E ?Q0 (history s) i s0" by (simp add: unchanged_def)
    have A1: "anonymous (container s1) = anonymous (container s)"
      by (rule unchanged_swap [OF a(1) lt ps a(3)])
    have ce: "container (execute E new s1) = container s1"
      using assms(3) by (simp add: execute_container leaves_tree_def)
    show "has_src new \<Longrightarrow>
            unchanged E ?Q0 (history s) (container s) (Suc i) (execute E new s1)"
      using rehydrated_step [OF lv R lt ps a(3), of "execute E new s1"] A1 ce
      by (simp add: unchanged_def)
    show "has_src new \<Longrightarrow> unchanged E ?Q0 (history s) (container s) (Suc i)
            (s1\<lparr> history := history s1 @ [Failed new] \<rparr>)"
      using rehydrated_step [OF lv R lt ps a(3),
          of "s1\<lparr> history := history s1 @ [Failed new] \<rparr>"] A1
      by (simp add: unchanged_def)
    assume ns: "\<not> has_src new"
    have d: "(inserted E new s1 = execute E new s1 \<and> (has_src new \<or> runs_at_insertion E new)) \<or>
        (inserted E new s1 = s1\<lparr> history := history s1 @ [Failed new] \<rparr> \<and> has_src new) \<or>
        (container (inserted E new s1) = container s1 \<and>
         next_ref (inserted E new s1) = next_ref s1 \<and>
         history (inserted E new s1) = history s1 \<and> \<not> runs_at_insertion E new)"
      using inserted_inline(4,5,6,7) [OF ns, of E s1]
      by (cases "runs_at_insertion E new") simp_all
    have "container (inserted E new s1) = container s1"
      using inserted_inline(5,6) [OF ns, of E s1] ce
      by (cases "runs_at_insertion E new") simp_all
    with rehydrated_step [OF lv R lt ps a(3) d] A1
    show "unchanged E ?Q0 (history s) (container s) (Suc i) (inserted E new s1)"
      by (simp add: unchanged_def)
  next
    fix i s0
    assume b: "unchanged E ?Q0 (history s) (container s) i s0" "i < length (map ident ?Q0)"
    then have "rehydrated E ?Q0 (history s) i s0" "i < length ?Q0"
      by (simp_all add: unchanged_def)
    then show "ready E (map ident ?Q0 ! i) (container s0)"
      using assms(5) by (intro rehydrated_ready)
  qed (use assms(6,7) in simp_all)
  then obtain s' where s': "settle E oks (executeScripts E s) = Inr s'" "fetching s' = []"
    and U: "unchanged E ?Q0 (history s) (container s) (length ?Q0) s'"
    by (auto simp: executeScripts_def)
  from U have "rehydrated E ?Q0 (history s) (length ?Q0) s'"
    and A: "anonymous (container s') = anonymous (container s)"
    by (simp_all add: unchanged_def)
  from rehydrated_final [OF this(1)] obtain rs where
    lr: "length rs = length ?Q0" and nw: "\<forall>r \<in> set rs. r \<notin> ident ` set ?Q0"
    and q: "querySelectorAll_script (container s') = copies rs ?Q0"
    by blast
  have "map ident (querySelectorAll_script (container s')) = rs"
    and "map attributes (querySelectorAll_script (container s')) = map attributes ?Q0"
    and "map textContent (querySelectorAll_script (container s')) = map textContent ?Q0"
    unfolding q
    using copies_ident [OF lr] copies_attributes [OF lr ps] copies_textContent [OF lr]
    by simp_all
  with s' A lr nw show ?thesis by blast
qed

lemma leaves_tree_inert: "leaves_tree (browser_of inert)"
  by (simp add: leaves_tree_def browser_of_def inert_def)

theorem pass_changes_identity_only_witness:
  "anonymous (container (state_of (settle (browser_of inert) [False, False, False]
      (executeScripts (browser_of inert) (page_of demo 5))))) = anonymous demo
   \<and> map ident (querySelectorAll_script (container (state_of
        (settle (browser_of inert) [False, False, False]
           (executeScripts (browser_of inert) (page_of demo 5)))))) = [5, 6, 7]"
proof -
  let ?E = "browser_of inert"
  have f: "fetching (page_of demo 5) = []" by (simp add: page_of_def)
  have l: "length (querySelectorAll_script (container (page_of demo 5))) \<le> length [False, False, False]"
    by (simp add: demo_qsa)
  have st: "length (querySelectorAll_script (container (page_of demo 5))) < stack ?E"
    by (simp add: demo_qsa browser_of_def)
  have ps: "\<forall>sc \<in> set (querySelectorAll_script (container (page_of demo 5))).
              parsed ?E sc \<and> answered ?E sc"
    using demo_parsed by (simp only: list_all_iff)
  from pass_changes_identity_only [OF demo_wf f leaves_tree_inert keeps_off_src_inert ps l st]
  obtain s' where "settle ?E [False, False, False] (executeScripts ?E (page_of demo 5)) = Inr s'"
    and "anonymous (container s') = anonymous (container (page_of demo 5))"
    by blast
  then have "anonymous (container (state_of (settle ?E [False, False, False]
      (executeScripts ?E (page_of demo 5))))) = anonymous demo"
    by (simp add: page_of_def)
  moreover have "map ident (querySelectorAll_script (container (state_of
        (settle ?E [False, False, False] (executeScripts ?E (page_of demo 5)))))) = [5, 6, 7]"
    unfolding demo_fail by (simp add: querySelectorAll_script_def)
  ultimately show ?thesis by blast
qed

section \<open>Passes that end early\<close>

text \<open>
  What the conditions of the theorems on a whole pass exclude, each on an example.
  An attribute name that \<open>setAttribute\<close> does not accept: the pass ends with an
  \<open>InvalidCharacterError\<close> at the second script, and the third is not replaced.
\<close>

lemma pass_ends_at_refused_name:
  "executeScripts (browser_of inert)
     (page_of (Element 0 ''div'' []
        [ScriptElement (Script 1 [] ''a()''),
         ScriptElement (Script 2 [(''=x'', ''1'')] ''b()''),
         ScriptElement (Script 3 [] ''c()'')]) 4) =
   Inl (InvalidCharacterError,
        \<lparr> container = Element 0 ''div'' []
            [ScriptElement (Script 4 [] ''a()''),
             ScriptElement (Script 2 [(''=x'', ''1'')] ''b()''),
             ScriptElement (Script 3 [] ''c()'')],
          next_ref = 6, onload = [], onerror = [], fetching = [], deferred = [],
          history = [Swapped 1 (Script 4 [] ''a()''), Ran (Script 4 [] ''a()'')],
          timers = [], listeners = [] \<rparr>)"
  by code_simp

text \<open>
  An element with a source that the browser does not take for a script: no event
  comes, and the pass waits for ever; the second script is not replaced.
\<close>

lemma pass_waits_for_data_block:
  "settle (browser_of inert) [True, True]
     (executeScripts (browser_of inert)
        (page_of (Element 0 ''div'' []
           [ScriptElement (Script 1 [(''type'', ''text/plain''), (''src'', ''a.js'')] []),
            ScriptElement (Script 2 [] ''b()'')]) 3)) =
   Inr \<lparr> container = Element 0 ''div'' []
           [ScriptElement (Script 3 [(''type'', ''text/plain''), (''src'', ''a.js'')] []),
            ScriptElement (Script 2 [] ''b()'')],
         next_ref = 4, onload = [(3, RunNext [1, 2] 0)], onerror = [(3, RunNext [1, 2] 0)],
         fetching = [Script 3 [(''type'', ''text/plain''), (''src'', ''a.js'')] []],
         deferred = [],
         history = [Swapped 1 (Script 3 [(''type'', ''text/plain''), (''src'', ''a.js'')] [])],
         timers = [], listeners = [] \<rparr>"
  by code_simp

text \<open>
  A run of inline scripts longer than the stack has room for, here on a stack with
  room for two calls: the third call raises a \<open>RangeError\<close>, and the third script is
  not replaced.
\<close>

lemma pass_ends_at_full_stack:
  "executeScripts ((browser_of inert) \<lparr> stack := 2 \<rparr>)
     (page_of (Element 0 ''div'' []
        [ScriptElement (Script 1 [] ''a()''),
         ScriptElement (Script 2 [] ''b()''),
         ScriptElement (Script 3 [] ''c()'')]) 4) =
   Inl (RangeError,
        \<lparr> container = Element 0 ''div'' []
            [ScriptElement (Script 4 [] ''a()''),
             ScriptElement (Script 5 [] ''b()''),
             ScriptElement (Script 3 [] ''c()'')],
          next_ref = 6, onload = [], onerror = [], fetching = [], deferred = [],
          history =
            [Swapped 1 (Script 4 [] ''a()''), Ran (Script 4 [] ''a()''),
             Swapped 2 (Script 5 [] ''b()''), Ran (Script 5 [] ''b()'')],
          timers = [], listeners = [] \<rparr>)"
  by code_simp

end
